theory Spec2Isabelle
  imports Complex_Main
begin

section \<open>Python arithmetic used by the worker\<close>

text \<open>
  The worker computes the scaling ratio and the progress percentage with Python's
  true division \<^verbatim>\<open>/\<close>, a product of an \<^verbatim>\<open>int\<close> and a \<^verbatim>\<open>float\<close>, and
  \<^verbatim>\<open>int(...)\<close>. A Python \<^verbatim>\<open>float\<close> is an IEEE 754 binary64 number; every
  operation returns the representable number nearest to the exact result, ties going to
  the even significand. A finite float is modelled by its significand and exponent:
  \<open>(m, q)\<close> stands for \<open>m * 2 ^ q\<close> with \<open>\<bar>m\<bar> \<le> 2 ^ 53\<close> and \<open>- 1074 \<le> q\<close>.
  Exceptions are values: \<open>Inl msg\<close> carries the text that \<^verbatim>\<open>str(e)\<close> returns.
\<close>

type_synonym double = "int \<times> int"

type_synonym 'a raises = "string + 'a"

fun bit_length :: "nat \<Rightarrow> nat" where
  "bit_length n = (if n = 0 then 0 else Suc (bit_length (n div 2)))"

declare bit_length.simps [simp del]

text \<open>\<open>pow2_le k b a\<close> decides \<open>b * 2 ^ k \<le> a\<close> for an exponent of either sign.\<close>

definition pow2_le :: "int \<Rightarrow> int \<Rightarrow> int \<Rightarrow> bool" where
  "pow2_le k b a = (if 0 \<le> k then b * 2 ^ nat k \<le> a else b \<le> a * 2 ^ nat (- k))"

text \<open>For \<open>0 < a\<close> and \<open>0 < b\<close>, the integer \<open>k\<close> with \<open>2 ^ k \<le> a / b < 2 ^ (k + 1)\<close>.\<close>

definition floor_log2 :: "int \<Rightarrow> int \<Rightarrow> int" where
  "floor_log2 a b =
     (let k = int (bit_length (nat a)) - int (bit_length (nat b))
      in if pow2_le k b a then k else k - 1)"

text \<open>The integer nearest to \<open>n / d\<close> for \<open>0 < d\<close>, a tie going to the even neighbour.\<close>

definition round_half_even :: "int \<Rightarrow> int \<Rightarrow> int" where
  "round_half_even n d =
     (let q = n div d; r = n mod d
      in if 2 * r < d then q else if d < 2 * r then q + 1
         else if even q then q else q + 1)"

text \<open>
  The binary64 number nearest to \<open>a / b\<close> for \<open>0 < b\<close>: 53 significant bits, and a
  fixed exponent \<open>- 1074\<close> in the subnormal range. No upper limit is applied here.
\<close>

definition round_quotient :: "int \<Rightarrow> int \<Rightarrow> double" where
  "round_quotient a b =
     (if a = 0 then (0, 0)
      else let q = max (floor_log2 \<bar>a\<bar> b - 52) (- 1074)
           in if 0 \<le> q then (round_half_even a (b * 2 ^ nat q), q)
              else (round_half_even (a * 2 ^ nat (- q)) b, q))"

text \<open>
  The largest finite float is \<open>(2 ^ 53 - 1) * 2 ^ 971\<close>; a rounded magnitude of
  \<open>2 ^ 53 * 2 ^ 971 = 2 ^ 1024\<close> or more is out of range.
\<close>

definition too_large :: "double \<Rightarrow> bool" where
  "too_large d = (case d of (m, q) \<Rightarrow> 971 \<le> q \<and> 2 ^ 53 \<le> \<bar>m\<bar> * 2 ^ nat (q - 971))"

text \<open>\<^verbatim>\<open>a / b\<close> on two Python integers: the correctly rounded quotient.\<close>

definition py_truediv :: "int \<Rightarrow> int \<Rightarrow> double raises" where
  "py_truediv a b =
     (if b = 0 then Inl ''division by zero''
      else let d = round_quotient (a * sgn b) \<bar>b\<bar>
           in if too_large d then Inl ''integer division result too large for a float''
              else Inr d)"

text \<open>\<^verbatim>\<open>float(a)\<close>, the conversion applied to the integer operand of a mixed product.\<close>

definition py_float :: "int \<Rightarrow> double raises" where
  "py_float a =
     (let d = round_quotient a 1
      in if too_large d then Inl ''int too large to convert to float'' else Inr d)"

datatype py_product = Finite double | Infinity

text \<open>The product of two finite floats, rounded once; it overflows to infinity.\<close>

definition float_mul :: "double \<Rightarrow> double \<Rightarrow> py_product" where
  "float_mul x y =
     (case x of (m1, q1) \<Rightarrow> case y of (m2, q2) \<Rightarrow>
        let m = m1 * m2; q = q1 + q2;
            d = (if 0 \<le> q then round_quotient (m * 2 ^ nat q) 1
                 else round_quotient m (2 ^ nat (- q)))
        in if too_large d then Infinity else Finite d)"

text \<open>\<^verbatim>\<open>int(x)\<close> on a float truncates towards zero and rejects infinity.\<close>

definition py_int :: "py_product \<Rightarrow> int raises" where
  "py_int x =
     (case x of
        Infinity \<Rightarrow> Inl ''cannot convert float infinity to integer''
      | Finite (m, q) \<Rightarrow>
          Inr (if 0 \<le> q then m * 2 ^ nat q
               else if 0 \<le> m then m div 2 ^ nat (- q)
               else - ((- m) div 2 ^ nat (- q))))"

text \<open>\<^verbatim>\<open>int(n * x)\<close> for an integer \<open>n\<close> and a float \<open>x\<close>.\<close>

definition int_of_scaled :: "int \<Rightarrow> double \<Rightarrow> int raises" where
  "int_of_scaled n x =
     (case py_float n of
        Inl msg \<Rightarrow> Inl msg
      | Inr f \<Rightarrow> py_int (float_mul f x))"

section \<open>Text, paths and file enumeration\<close>

text \<open>
  Text is restricted to the Latin-1 range: a \<^typ>\<open>char\<close> is the code point of the same
  number. On this range \<^verbatim>\<open>str.lower\<close>, \<^verbatim>\<open>str.isspace\<close> and
  \<^verbatim>\<open>str.isdigit\<close> are the following tables.
\<close>

definition lower_char :: "char \<Rightarrow> char" where
  "lower_char c =
     (let n = of_char c :: nat
      in if (65 \<le> n \<and> n \<le> 90) \<or> (192 \<le> n \<and> n \<le> 222 \<and> n \<noteq> 215)
         then char_of (n + 32) else c)"

definition lower :: "string \<Rightarrow> string" where
  "lower s = map lower_char s"

definition isspace_char :: "char \<Rightarrow> bool" where
  "isspace_char c =
     (let n = of_char c :: nat
      in (9 \<le> n \<and> n \<le> 13) \<or> (28 \<le> n \<and> n \<le> 32) \<or> n = 133 \<or> n = 160)"

text \<open>The decimal digits \<^verbatim>\<open>0\<close> to \<^verbatim>\<open>9\<close>: the characters \<^verbatim>\<open>int()\<close> reads as digits.\<close>

definition isdecimal_char :: "char \<Rightarrow> bool" where
  "isdecimal_char c = (let n = of_char c :: nat in 48 \<le> n \<and> n \<le> 57)"

text \<open>
  \<^verbatim>\<open>str.isdigit\<close> also accepts the superscript digits two, three and one
  (code points 178, 179 and 185).
\<close>

definition isdigit_char :: "char \<Rightarrow> bool" where
  "isdigit_char c =
     (let n = of_char c :: nat in (48 \<le> n \<and> n \<le> 57) \<or> n = 178 \<or> n = 179 \<or> n = 185)"

definition strip :: "string \<Rightarrow> string" where
  "strip s = rev (dropWhile isspace_char (rev (dropWhile isspace_char s)))"

definition isdigit :: "string \<Rightarrow> bool" where
  "isdigit s = (s \<noteq> [] \<and> list_all isdigit_char s)"

text \<open>The decimal numeral of a natural number, as \<^verbatim>\<open>str\<close> prints it.\<close>

fun decimal :: "nat \<Rightarrow> string" where
  "decimal n =
     (if n < 10 then [char_of (48 + n)]
      else decimal (n div 10) @ [char_of (48 + n mod 10)])"

declare decimal.simps [simp del]

text \<open>
  \<^verbatim>\<open>int(s)\<close> on a text for which \<^verbatim>\<open>isdigit\<close> holds, the only texts the form
  passes to it (CPython 3.11). The leading decimal digits are scanned first: more than
  4300 of them exceed the interpreter's limit for the conversion. Otherwise the text is
  read in base ten when it consists of decimal digits only, and any other character
  raises \<^verbatim>\<open>ValueError\<close> with the text between quotes, cut to 200 characters, in the
  message.
\<close>

definition int_of_text :: "string \<Rightarrow> int raises" where
  "int_of_text s =
     (let digits = takeWhile isdecimal_char s
      in if 4300 < length digits then
           Inl (''Exceeds the limit (4300 digits) for integer string conversion: value has ''
                @ decimal (length digits)
                @ '' digits; use sys.set_int_max_str_digits() to increase the limit'')
         else if s \<noteq> [] \<and> digits = s then
           Inr (foldl (\<lambda>acc c. 10 * acc + (int (of_char c) - 48)) 0 s)
         else
           Inl (''invalid literal for int() with base 10: ''
                @ take 200 (CHR 0x27 # s @ [CHR 0x27])))"

text \<open>
  A path is a directory and a file name. \<^verbatim>\<open>Path.suffix\<close> is the part of the name from
  its last dot, provided that dot is neither the first nor the last character.
\<close>

type_synonym path = "string \<times> string"

text \<open>
  \<^verbatim>\<open>s.rfind(c)\<close>: the highest index at which \<open>c\<close> occurs, or \<open>- 1\<close>. The scan keeps
  the index of the current character and the last index found so far.
\<close>

fun rfind_scan :: "char \<Rightarrow> string \<Rightarrow> nat \<Rightarrow> int \<Rightarrow> int" where
  "rfind_scan c [] i found = found"
| "rfind_scan c (x # xs) i found = rfind_scan c xs (Suc i) (if x = c then int i else found)"

definition rfind :: "char \<Rightarrow> string \<Rightarrow> int" where
  "rfind c s = rfind_scan c s 0 (- 1)"

definition path_suffix :: "string \<Rightarrow> string" where
  "path_suffix name =
     (let i = rfind CHR ''.'' name
      in if 0 < i \<and> i < int (length name) - 1 then drop (nat i) name else [])"

text \<open>
  Matching a name against a glob pattern; of the special characters only \<^verbatim>\<open>*\<close>,
  the one the worker's patterns use, is interpreted.
\<close>

fun fnmatch :: "string \<Rightarrow> string \<Rightarrow> bool" where
  "fnmatch [] name = (name = [])"
| "fnmatch (p # ps) [] = (p = CHR ''*'' \<and> fnmatch ps [])"
| "fnmatch (p # ps) (c # cs) =
     (if p = CHR ''*'' then fnmatch ps (c # cs) \<or> fnmatch (p # ps) cs
      else p = c \<and> fnmatch ps cs)"

section \<open>Images and the imaging library\<close>

text \<open>
  An image carries what the worker reads of it: its size, its mode, its metadata
  dictionary, and a description of where its pixels come from.
\<close>

datatype pixels =
    Decoded path
  | Resampled pixels "int \<times> int"
  | Filled "int \<times> int \<times> int"
  | LastBand pixels
  | Pasted pixels pixels "pixels option"

record image =
  img_size :: "int \<times> int"
  img_mode :: string
  img_info :: "(string \<times> string) list"
  img_data :: pixels

record save_call =
  save_path :: path
  save_format :: string
  save_quality :: "int option"
  save_optimize :: bool
  save_image :: image

text \<open>
  What the worker cannot decide by itself is the environment of a run: the directory
  listing, and the calls of the imaging library that may raise (opening a file, decoding
  its pixels, resampling, encoding), each with the message of the exception.
\<close>

record environment =
  ignore_case :: bool
  scandir :: "string \<Rightarrow> string list"
  path_exists :: "string \<Rightarrow> bool"
  mkdir_error :: "string \<Rightarrow> string option"
  image_open :: "path \<Rightarrow> image raises"
  load_error :: "image \<Rightarrow> string option"
  resize_error :: "image \<Rightarrow> int \<times> int \<Rightarrow> string option"
  save_error :: "save_call \<Rightarrow> string option"

text \<open>\<^verbatim>\<open>Path.glob\<close>: the entries of the directory that match, in listing order.\<close>

definition glob :: "environment \<Rightarrow> string \<Rightarrow> string \<Rightarrow> path list" where
  "glob env dir pat =
     map (\<lambda>name. (dir, name))
       (filter (\<lambda>name. if ignore_case env then fnmatch (lower pat) (lower name)
                        else fnmatch pat name)
          (scandir env dir))"

text \<open>\<^verbatim>\<open>img.copy()\<close> decodes the pixels and returns an equal image.\<close>

definition copy :: "environment \<Rightarrow> image \<Rightarrow> image raises" where
  "copy env img = (case load_error env img of Some msg \<Rightarrow> Inl msg | None \<Rightarrow> Inr img)"

text \<open>\<^verbatim>\<open>img.resize(size, Image.LANCZOS)\<close> decodes, then resamples to the size asked for.\<close>

definition resize :: "environment \<Rightarrow> image \<Rightarrow> int \<times> int \<Rightarrow> image raises" where
  "resize env img new_size =
     (case load_error env img of
        Some msg \<Rightarrow> Inl msg
      | None \<Rightarrow>
          (case resize_error env img new_size of
             Some msg \<Rightarrow> Inl msg
           | None \<Rightarrow>
               Inr (img\<lparr>img_size := new_size,
                        img_data := Resampled (img_data img) new_size\<rparr>)))"

text \<open>\<^verbatim>\<open>Image.new(mode, size, color)\<close> and \<^verbatim>\<open>background.paste(im, mask=...)\<close>.\<close>

definition new_image :: "string \<Rightarrow> int \<times> int \<Rightarrow> int \<times> int \<times> int \<Rightarrow> image" where
  "new_image m sz colour =
     \<lparr>img_size = sz, img_mode = m, img_info = [], img_data = Filled colour\<rparr>"

definition paste :: "image \<Rightarrow> image \<Rightarrow> pixels option \<Rightarrow> image" where
  "paste background im msk =
     background\<lparr>img_data := Pasted (img_data background) (img_data im) msk\<rparr>"

definition clear_info :: "image \<Rightarrow> image" where
  "clear_info img = img\<lparr>img_info := []\<rparr>"

section \<open>The worker\<close>

record config =
  input_dir :: string
  output_dir :: string
  target_size :: int
  jpeg_quality :: int
  overwrite :: bool

text \<open>
  What a run does that can be observed: the three signals of the worker, the directory
  it creates and the calls of the encoder.
\<close>

datatype event =
    Log string
  | Progress int
  | Finished
  | Mkdir string
  | Save save_call

text \<open>
  \<^verbatim>\<open>ratio = target_size / current_max\<close> and
  \<^verbatim>\<open>new_size = (int(width * ratio), int(height * ratio))\<close>.
\<close>

definition new_size :: "int \<Rightarrow> int \<Rightarrow> int \<Rightarrow> (int \<times> int) raises" where
  "new_size target width height =
     (case py_truediv target (max width height) of
        Inl msg \<Rightarrow> Inl msg
      | Inr ratio \<Rightarrow>
          (case int_of_scaled width ratio of
             Inl msg \<Rightarrow> Inl msg
           | Inr w \<Rightarrow>
               (case int_of_scaled height ratio of
                  Inl msg \<Rightarrow> Inl msg
                | Inr h \<Rightarrow> Inr (w, h))))"

definition scaled :: "config \<Rightarrow> environment \<Rightarrow> image \<Rightarrow> image raises" where
  "scaled cfg env img =
     (case img_size img of (width, height) \<Rightarrow>
        let current_max = max width height
        in if current_max \<le> target_size cfg then copy env img
           else (case new_size (target_size cfg) width height of
                   Inl msg \<Rightarrow> Inl msg
                 | Inr sz \<Rightarrow> resize env img sz))"

text \<open>The conversion to RGB on a white background that precedes a JPEG save.\<close>

definition flatten :: "image \<Rightarrow> image" where
  "flatten new_img =
     (if img_mode new_img = ''RGBA'' \<or> img_mode new_img = ''P'' then
        let background = new_image ''RGB'' (img_size new_img) (255, 255, 255)
        in if img_mode new_img = ''RGBA''
           then paste background new_img (Some (LastBand (img_data new_img)))
           else paste background new_img None
      else new_img)"

definition encoder_call :: "config \<Rightarrow> path \<Rightarrow> image \<Rightarrow> save_call" where
  "encoder_call cfg img_path new_img =
     (let target = (if overwrite cfg then img_path else (output_dir cfg, snd img_path));
          ext = lower (path_suffix (snd target))
      in if ext = ''.jpg'' \<or> ext = ''.jpeg'' then
           \<lparr>save_path = target, save_format = ''JPEG'',
            save_quality = Some (jpeg_quality cfg), save_optimize = True,
            save_image = flatten new_img\<rparr>
         else
           \<lparr>save_path = target, save_format = ''PNG'',
            save_quality = None, save_optimize = True,
            save_image = new_img\<rparr>)"

text \<open>
  The body of the \<^verbatim>\<open>try\<close> block of one iteration: the events it emits, and the
  message of the exception that ended it, if any.
\<close>

definition try_file :: "config \<Rightarrow> environment \<Rightarrow> path \<Rightarrow> event list \<times> string option" where
  "try_file cfg env img_path =
     (case image_open env img_path of
        Inl msg \<Rightarrow> ([], Some msg)
      | Inr img \<Rightarrow>
          (case scaled cfg env (clear_info img) of
             Inl msg \<Rightarrow> ([], Some msg)
           | Inr new_img \<Rightarrow>
               let call = encoder_call cfg img_path (clear_info new_img)
               in (case save_error env call of
                     Some msg \<Rightarrow> ([Save call], Some msg)
                   | None \<Rightarrow> ([Save call, Log (''Processed: '' @ snd img_path)], None))))"

text \<open>One iteration up to the progress signal: the block with its exception handler.\<close>

definition process_file :: "config \<Rightarrow> environment \<Rightarrow> path \<Rightarrow> event list" where
  "process_file cfg env img_path =
     (case try_file cfg env img_path of
        (evs, None) \<Rightarrow> evs
      | (evs, Some msg) \<Rightarrow> evs @ [Log (''Error with '' @ snd img_path @ '': '' @ msg)])"

text \<open>\<^verbatim>\<open>int((i + 1) / total * 100)\<close>.\<close>

definition progress_value :: "nat \<Rightarrow> nat \<Rightarrow> int raises" where
  "progress_value i n_total =
     (case py_truediv (int i + 1) (int n_total) of
        Inl msg \<Rightarrow> Inl msg
      | Inr fraction \<Rightarrow> int_of_scaled 100 fraction)"

text \<open>
  The loop over the enumerated files. An exception outside the per-file handler ends
  the loop; it is returned beside the events emitted so far.
\<close>

fun process_all ::
  "config \<Rightarrow> environment \<Rightarrow> nat \<Rightarrow> nat \<Rightarrow> path list \<Rightarrow> event list \<times> string option" where
  "process_all cfg env n_total i [] = ([], None)"
| "process_all cfg env n_total i (img_path # rest) =
     (let evs = process_file cfg env img_path
      in case progress_value i n_total of
           Inl msg \<Rightarrow> (evs, Some msg)
         | Inr p \<Rightarrow>
             (case process_all cfg env n_total (Suc i) rest of
                (later, err) \<Rightarrow> (evs @ Progress p # later, err)))"

definition image_files :: "config \<Rightarrow> environment \<Rightarrow> path list" where
  "image_files cfg env =
     glob env (input_dir cfg) ''*.jpg'' @ glob env (input_dir cfg) ''*.jpeg''
       @ glob env (input_dir cfg) ''*.png''"

text \<open>The part of \<^verbatim>\<open>run\<close> after the destination directory has been dealt with.\<close>

definition convert :: "config \<Rightarrow> environment \<Rightarrow> event list" where
  "convert cfg env =
     (let files = image_files cfg env; n_total = length files
      in if n_total = 0
         then [Log ''No images found in the source folder.'', Finished, Finished]
         else (case process_all cfg env n_total 0 files of
                 (evs, None) \<Rightarrow> evs @ [Log ''Conversion completed.'', Finished]
               | (evs, Some msg) \<Rightarrow> evs @ [Log (''Critical error: '' @ msg), Finished]))"

definition run :: "config \<Rightarrow> environment \<Rightarrow> event list" where
  "run cfg env =
     (if \<not> overwrite cfg \<and> \<not> path_exists env (output_dir cfg) then
        (case mkdir_error env (output_dir cfg) of
           Some msg \<Rightarrow> [Mkdir (output_dir cfg), Log (''Critical error: '' @ msg), Finished]
         | None \<Rightarrow> Mkdir (output_dir cfg) # convert cfg env)
      else convert cfg env)"

text \<open>
  Vocabulary for statements about a run: whether it creates the destination directory,
  whether it gets past that step to the enumeration of the files, and the values of its
  progress signals in the order of emission.
\<close>

definition creates_directory :: "config \<Rightarrow> environment \<Rightarrow> bool" where
  "creates_directory cfg env = (\<not> overwrite cfg \<and> \<not> path_exists env (output_dir cfg))"

definition reaches_enumeration :: "config \<Rightarrow> environment \<Rightarrow> bool" where
  "reaches_enumeration cfg env =
     (creates_directory cfg env \<longrightarrow> mkdir_error env (output_dir cfg) = None)"

fun progress_values :: "event list \<Rightarrow> int list" where
  "progress_values [] = []"
| "progress_values (Progress p # es) = p # progress_values es"
| "progress_values (e # es) = progress_values es"

text \<open>\<^verbatim>\<open>name.endswith(ending)\<close>.\<close>

definition endswith :: "string \<Rightarrow> string \<Rightarrow> bool" where
  "endswith name ending =
     (length ending \<le> length name \<and> drop (length name - length ending) name = ending)"

section \<open>The form\<close>

record window =
  input_line :: string
  output_line :: string
  size_line :: string
  quality_line :: string
  overwrite_cb :: bool
  start_btn_enabled :: bool
  progress_bar :: int
  log_text :: "string list"
  worker :: "config option"

definition append_log :: "window \<Rightarrow> string \<Rightarrow> window" where
  "append_log w line = w\<lparr>log_text := log_text w @ [line]\<rparr>"

text \<open>
  \<^verbatim>\<open>not text.isdigit() or not ok(int(text))\<close>: the conversion is evaluated only when
  the first test lets the text through, and it may raise.
\<close>

definition number_rejected :: "string \<Rightarrow> (int \<Rightarrow> bool) \<Rightarrow> bool raises" where
  "number_rejected txt ok =
     (if \<not> isdigit txt then Inr True
      else (case int_of_text txt of Inl msg \<Rightarrow> Inl msg | Inr n \<Rightarrow> Inr (\<not> ok n)))"

text \<open>
  The handler of the start button. \<open>isdir\<close> is \<^verbatim>\<open>os.path.isdir\<close>. The result is the
  window after the handler has returned, or the exception that left it.
\<close>

definition start_conversion :: "(string \<Rightarrow> bool) \<Rightarrow> window \<Rightarrow> window raises" where
  "start_conversion isdir w =
     (let src = strip (input_line w);
          dst = strip (output_line w);
          size_text = strip (size_line w);
          quality_text = strip (quality_line w);
          ovw = overwrite_cb w
      in if src = [] \<or> \<not> isdir src then
           Inr (append_log w ''Error: Invalid source folder.'')
         else if \<not> ovw \<and> (dst = [] \<or> \<not> isdir dst) then
           Inr (append_log w ''Error: Invalid destination folder.'')
         else
           (case number_rejected size_text (\<lambda>n. 0 < n) of
              Inl msg \<Rightarrow> Inl msg
            | Inr True \<Rightarrow>
                Inr (append_log w
                  ''Error: Please enter a valid number greater than 0 for the image size.'')
            | Inr False \<Rightarrow>
                (case number_rejected quality_text (\<lambda>n. 1 \<le> n \<and> n \<le> 95) of
                   Inl msg \<Rightarrow> Inl msg
                 | Inr True \<Rightarrow>
                     Inr (append_log w
                       ''Error: Image quality must be a number between 1 and 95.'')
                 | Inr False \<Rightarrow>
                     (case int_of_text size_text of
                        Inl msg \<Rightarrow> Inl msg
                      | Inr size_value \<Rightarrow>
                          (case int_of_text quality_text of
                             Inl msg \<Rightarrow> Inl msg
                           | Inr quality_value \<Rightarrow>
                               Inr (w\<lparr>start_btn_enabled := False, progress_bar := 0,
                                      log_text := [],
                                      worker := Some \<lparr>input_dir = src, output_dir = dst,
                                        target_size = size_value,
                                        jpeg_quality = quality_value,
                                        overwrite = ovw\<rparr>\<rparr>))))))"

section \<open>The rounding of binary64 arithmetic\<close>

text \<open>
  The mathematical description of the arithmetic above, over the reals: \<open>value_of\<close>
  is the number a float stands for, \<open>rne\<close> rounds a real to the nearest integer with
  ties to even, and \<open>fl\<close> rounds a real to the nearest binary64 number.
\<close>

definition p2 :: "int \<Rightarrow> real" where
  "p2 q = 2 powr real_of_int q"

definition value_of :: "double \<Rightarrow> real" where
  "value_of d = (case d of (m, q) \<Rightarrow> real_of_int m * p2 q)"

definition rne :: "real \<Rightarrow> int" where
  "rne x =
     (let f = \<lfloor>x\<rfloor>
      in if x - of_int f < 1 / 2 then f else if 1 / 2 < x - of_int f then f + 1
         else if even f then f else f + 1)"

definition exponent_of :: "real \<Rightarrow> int" where
  "exponent_of x = max (\<lfloor>log 2 \<bar>x\<bar>\<rfloor> - 52) (- 1074)"

definition fl :: "real \<Rightarrow> real" where
  "fl x =
     (if x = 0 then 0
      else real_of_int (rne (x / p2 (exponent_of x))) * p2 (exponent_of x))"

section \<open>A sample run\<close>

text \<open>
  A concrete directory, used to evaluate the worker: a large photograph, a file with an
  upper-case extension, a file that cannot be decoded, a picture with an alpha channel
  under a JPEG name, a very narrow palette image, a text file and a small picture. The
  library refuses to resample to an empty size, as Pillow does.
\<close>

definition sample_image :: "int \<times> int \<Rightarrow> string \<Rightarrow> path \<Rightarrow> image" where
  "sample_image sz m p =
     \<lparr>img_size = sz, img_mode = m, img_info = [(''dpi'', ''72'')], img_data = Decoded p\<rparr>"

definition sample_open :: "path \<Rightarrow> image raises" where
  "sample_open p =
     (if snd p = ''a.jpg'' then Inr (sample_image (4000, 3000) ''RGB'' p)
      else if snd p = ''c.png'' then
        Inl (''cannot identify image file '' @ CHR 0x27 # fst p @ ''/'' @ snd p @ [CHR 0x27])
      else if snd p = ''d.jpeg'' then Inr (sample_image (800, 600) ''RGBA'' p)
      else if snd p = ''e.png'' then Inr (sample_image (1, 4000) ''P'' p)
      else Inr (sample_image (640, 480) ''RGB'' p))"

definition sample_env :: environment where
  "sample_env =
     \<lparr>ignore_case = False,
      scandir = (\<lambda>d. [''a.jpg'', ''B.JPG'', ''c.png'', ''d.jpeg'', ''e.png'', ''notes.txt'',
                       ''small.png'']),
      path_exists = (\<lambda>d. d = ''/in''),
      mkdir_error = (\<lambda>d. None),
      image_open = sample_open,
      load_error = (\<lambda>img. None),
      resize_error = (\<lambda>img sz. if fst sz < 1 \<or> snd sz < 1
                                then Some ''height and width must be > 0'' else None),
      save_error = (\<lambda>call. None)\<rparr>"

definition sample_cfg :: config where
  "sample_cfg =
     \<lparr>input_dir = ''/in'', output_dir = ''/out'', target_size = 1920, jpeg_quality = 80,
      overwrite = False\<rparr>"

text \<open>The encoder call the worker makes for a sample file that is copied as it is.\<close>

definition sample_call :: "string \<Rightarrow> int \<times> int \<Rightarrow> string \<Rightarrow> save_call" where
  "sample_call name sz m =
     encoder_call sample_cfg (''/in'', name) (clear_info (sample_image sz m (''/in'', name)))"

text \<open>A form filled in with valid values, and the directories that exist beside it.\<close>

definition sample_window :: window where
  "sample_window =
     \<lparr>input_line = ''/in'', output_line = ''/out'', size_line = ''1920'',
      quality_line = ''80'', overwrite_cb = True, start_btn_enabled = True,
      progress_bar = 0, log_text = [], worker = None\<rparr>"

definition sample_isdir :: "string \<Rightarrow> bool" where
  "sample_isdir d = (d = ''/in'')"

text \<open>
  A directory in which every step of an iteration fails once: a file that cannot be
  identified, a truncated file whose pixels cannot be decoded, the narrow image that
  cannot be resampled, a file whose destination cannot be written, and a sound one.
\<close>

definition faulty_env :: environment where
  "faulty_env =
     sample_env
       \<lparr>scandir := (\<lambda>d. [''c.png'', ''t.png'', ''e.png'', ''ro.png'', ''small.png'']),
        load_error := (\<lambda>img. if img_data img = Decoded (''/in'', ''t.png'')
                              then Some ''image file is truncated (12 bytes not processed)''
                              else None),
        save_error := (\<lambda>call. if snd (save_path call) = ''ro.png''
                               then Some (''[Errno 13] Permission denied: ''
                                          @ CHR 0x27 # fst (save_path call) @ ''/''
                                          @ snd (save_path call) @ [CHR 0x27])
                               else None)\<rparr>"



definition empty_env :: environment where
  "empty_env = sample_env\<lparr>scandir := (\<lambda>d. [''notes.txt''])\<rparr>"

section \<open>Correctness of the rounding\<close>

lemma p2_pos [simp]: "0 < p2 q"
  by (simp add: p2_def)

lemma p2_add: "p2 (a + b) = p2 a * p2 b"
  by (simp add: p2_def powr_add)

lemma p2_nat: "p2 (int n) = 2 ^ n"
  by (simp add: p2_def powr_realpow)

lemma p2_neg: "p2 (- q) = 1 / p2 q"
  by (simp add: p2_def powr_minus_divide)

lemma p2_mono: "a \<le> b \<Longrightarrow> p2 a \<le> p2 b"
  by (simp add: p2_def)

lemma p2_less_iff: "p2 a < p2 b \<longleftrightarrow> a < b"
  by (simp add: p2_def)

lemma p2_le_iff: "p2 a \<le> p2 b \<longleftrightarrow> a \<le> b"
  by (simp add: p2_def)

lemma rne_of_int [simp]: "rne (of_int k) = k"
  by (simp add: rne_def)

lemma rne_bounds: "\<lfloor>x\<rfloor> \<le> rne x \<and> rne x \<le> \<lfloor>x\<rfloor> + 1"
  by (simp add: rne_def Let_def)

lemma rne_error: "\<bar>real_of_int (rne x) - x\<bar> \<le> 1 / 2"
  unfolding rne_def Let_def by (auto; linarith)

lemma rne_mono: "x \<le> y \<Longrightarrow> rne x \<le> rne y"
proof -
  assume xy: "x \<le> y"
  have fxy: "\<lfloor>x\<rfloor> \<le> \<lfloor>y\<rfloor>" using xy by (rule floor_mono)
  show ?thesis
  proof (cases "\<lfloor>x\<rfloor> = \<lfloor>y\<rfloor>")
    case True
    then show ?thesis using xy unfolding rne_def Let_def by (auto; linarith)
  next
    case False
    with fxy have "\<lfloor>x\<rfloor> + 1 \<le> \<lfloor>y\<rfloor>" by simp
    then show ?thesis using rne_bounds[of x] rne_bounds[of y] by linarith
  qed
qed

lemma rne_ge: "real_of_int k \<le> x \<Longrightarrow> k \<le> rne x"
  using rne_mono[of "of_int k" x] by simp

lemma rne_le: "x \<le> real_of_int k \<Longrightarrow> rne x \<le> k"
  using rne_mono[of x "of_int k"] by simp

lemma round_half_even_rne:
  assumes "0 < d"
  shows "round_half_even n d = rne (real_of_int n / real_of_int d)"
proof -
  have fl: "\<lfloor>real_of_int n / real_of_int d\<rfloor> = n div d"
    by (simp add: floor_divide_of_int_eq)
  have "real_of_int n = real_of_int (n div d) * real_of_int d + real_of_int (n mod d)"
    by (metis of_int_add of_int_mult div_mult_mod_eq)
  then have fr: "real_of_int n / real_of_int d - real_of_int (n div d) = real_of_int (n mod d) / real_of_int d"
    using assms by (simp add: field_simps)
  have c1: "real_of_int (n mod d) / real_of_int d < 1 / 2 \<longleftrightarrow> 2 * (n mod d) < d"
    using assms by (simp add: field_simps) linarith
  have c2: "1 / 2 < real_of_int (n mod d) / real_of_int d \<longleftrightarrow> d < 2 * (n mod d)"
    using assms by (simp add: field_simps) linarith
  show ?thesis
    unfolding round_half_even_def rne_def Let_def fl fr c1 c2 by simp
qed


lemma p2_nonneg_exp: "0 \<le> k \<Longrightarrow> p2 k = 2 ^ nat k"
  using p2_nat[of "nat k"] by simp

lemma p2_neg_exp: "k < 0 \<Longrightarrow> p2 k = 1 / 2 ^ nat (- k)"
  using p2_neg[of "- k"] p2_nonneg_exp[of "- k"] by simp

lemma bit_length_bounds:
  "0 < n \<Longrightarrow> 2 ^ (bit_length n - 1) \<le> n \<and> n < 2 ^ bit_length n"
proof (induction n rule: bit_length.induct)
  case (1 n)
  have bl: "bit_length n = Suc (bit_length (n div 2))"
    using "1.prems" by (subst bit_length.simps) simp
  show ?case
  proof (cases "n div 2 = 0")
    case True
    then have "n = 1" using "1.prems" by (cases n rule: nat.exhaust) (auto simp: div_eq_0_iff)
    then show ?thesis by (simp add: bit_length.simps)
  next
    case False
    then have pos: "0 < n div 2" by simp
    have ih: "2 ^ (bit_length (n div 2) - 1) \<le> n div 2 \<and> n div 2 < 2 ^ bit_length (n div 2)"
      using "1.IH" "1.prems" pos by simp
    have nz: "bit_length (n div 2) \<noteq> 0"
      using pos by (subst bit_length.simps) simp
    then have e: "(2::nat) ^ bit_length (n div 2) = 2 * 2 ^ (bit_length (n div 2) - 1)"
      by (cases "bit_length (n div 2)") simp_all
    have d: "2 * (n div 2) \<le> n" "n < 2 * (n div 2) + 2"
      by presburger+
    have lo: "2 ^ bit_length (n div 2) \<le> n"
      using ih e d by linarith
    have hi: "n < 2 * 2 ^ bit_length (n div 2)"
      using ih d by linarith
    show ?thesis using lo hi by (simp add: bl)
  qed
qed


lemma bit_length_pos: "0 < n \<Longrightarrow> 0 < bit_length n"
  by (subst bit_length.simps) simp

lemma bit_length_real:
  assumes "0 < a"
  shows "p2 (int (bit_length (nat a)) - 1) \<le> real_of_int a"
    and "real_of_int a < p2 (int (bit_length (nat a)))"
proof -
  define n where "n = nat a"
  define l where "l = bit_length n"
  have n: "0 < n" and an: "real_of_int a = real n"
    using assms by (simp_all add: n_def)
  have b1: "2 ^ (l - 1) \<le> n" and b2: "n < 2 ^ l"
    using bit_length_bounds[OF n] by (simp_all add: l_def)
  have lpos: "0 < l" using bit_length_pos[OF n] by (simp add: l_def)
  have r1: "(2::real) ^ (l - 1) \<le> real n"
    using b1 by (metis of_nat_le_iff of_nat_numeral of_nat_power)
  have r2: "real n < (2::real) ^ l"
    using b2 by (metis of_nat_less_iff of_nat_numeral of_nat_power)
  have e: "int l - 1 = int (l - 1)" using lpos by linarith
  have "p2 (int l - 1) = 2 ^ (l - 1)"
    unfolding e by (rule p2_nat)
  then show "p2 (int (bit_length (nat a)) - 1) \<le> real_of_int a"
    using r1 unfolding an l_def n_def by simp
  have "p2 (int l) = 2 ^ l" by (rule p2_nat)
  then show "real_of_int a < p2 (int (bit_length (nat a)))"
    using r2 unfolding an l_def n_def by simp
qed

lemma pow2_le_real:
  assumes "0 < b"
  shows "pow2_le k b a \<longleftrightarrow> p2 k \<le> real_of_int a / real_of_int b"
proof (cases "0 \<le> k")
  case True
  have "(b * 2 ^ nat k \<le> a) = (real_of_int (b * 2 ^ nat k) \<le> real_of_int a)"
    by (simp only: of_int_le_iff)
  also have "\<dots> = (real_of_int b * 2 ^ nat k \<le> real_of_int a)" by simp
  also have "\<dots> = (2 ^ nat k \<le> real_of_int a / real_of_int b)"
    using assms by (simp add: field_simps)
  finally show ?thesis using True by (simp add: pow2_le_def p2_nonneg_exp)
next
  case False
  then have k: "k < 0" by simp
  have "(b \<le> a * 2 ^ nat (- k)) = (real_of_int b \<le> real_of_int (a * 2 ^ nat (- k)))"
    by (simp only: of_int_le_iff)
  also have "\<dots> = (real_of_int b \<le> real_of_int a * 2 ^ nat (- k))" by simp
  also have "\<dots> = (1 / 2 ^ nat (- k) \<le> real_of_int a / real_of_int b)"
    using assms by (simp add: field_simps)
  finally show ?thesis using k by (simp add: pow2_le_def p2_neg_exp)
qed


lemma floor_log2_bracket:
  assumes "0 < a" "0 < b"
  shows "p2 (floor_log2 a b) \<le> real_of_int a / real_of_int b"
    and "real_of_int a / real_of_int b < p2 (floor_log2 a b + 1)"
proof -
  let ?A = "int (bit_length (nat a))" and ?B = "int (bit_length (nat b))"
  let ?x = "real_of_int a / real_of_int b"
  have ra: "0 < real_of_int a" and rb: "0 < real_of_int b" using assms by simp_all
  have up: "?x < p2 (?A - ?B + 1)"
  proof -
    have "real_of_int a < p2 ?A" using bit_length_real(2)[OF assms(1)] .
    moreover have "p2 (?B - 1) \<le> real_of_int b" using bit_length_real(1)[OF assms(2)] .
    ultimately have "real_of_int a * p2 (?B - 1) < p2 ?A * real_of_int b"
      using ra rb by (meson mult_less_le_imp_less p2_pos less_imp_le)
    moreover have "p2 (?A - ?B + 1) * p2 (?B - 1) = p2 ?A"
      by (simp flip: p2_add)
    ultimately have "real_of_int a * p2 (?B - 1) < p2 (?A - ?B + 1) * p2 (?B - 1) * real_of_int b"
      by simp
    then have "real_of_int a < p2 (?A - ?B + 1) * real_of_int b"
      by (simp add: mult.assoc mult.left_commute)
    then show ?thesis using rb by (simp add: field_simps)
  qed
  have lo: "p2 (?A - ?B - 1) \<le> ?x"
  proof -
    have "p2 (?A - 1) \<le> real_of_int a" using bit_length_real(1)[OF assms(1)] .
    moreover have "real_of_int b \<le> p2 ?B" using bit_length_real(2)[OF assms(2)] by simp
    moreover have "p2 (?A - ?B - 1) * p2 ?B = p2 (?A - 1)"
      by (simp flip: p2_add)
    ultimately have "p2 (?A - ?B - 1) * real_of_int b \<le> real_of_int a"
      by (smt (verit) mult_left_mono p2_pos less_imp_le)
    then show ?thesis using rb by (simp add: field_simps)
  qed
  show "p2 (floor_log2 a b) \<le> ?x"
    using lo pow2_le_real[OF assms(2), of "?A - ?B" a]
    by (simp add: floor_log2_def Let_def)
  show "?x < p2 (floor_log2 a b + 1)"
    using up pow2_le_real[OF assms(2), of "?A - ?B" a]
    by (auto simp: floor_log2_def Let_def)
qed

lemma floor_log_bracket:
  assumes "0 < x"
  shows "p2 \<lfloor>log 2 x\<rfloor> \<le> x" and "x < p2 (\<lfloor>log 2 x\<rfloor> + 1)"
  using floor_log_eq_powr_iff[of x 2 "\<lfloor>log 2 x\<rfloor>"] assms by (simp_all add: p2_def)

lemma floor_log_unique:
  assumes "0 < x" "p2 k \<le> x" "x < p2 (k + 1)"
  shows "\<lfloor>log 2 x\<rfloor> = k"
  using floor_log_eq_powr_iff[of x 2 k] assms by (simp add: p2_def)

lemma floor_log2_correct:
  assumes "0 < a" "0 < b"
  shows "floor_log2 a b = \<lfloor>log 2 (real_of_int a / real_of_int b)\<rfloor>"
proof -
  have "0 < real_of_int a / real_of_int b" using assms by simp
  then show ?thesis
    using floor_log_unique[OF _ floor_log2_bracket[OF assms]] by simp
qed

lemma value_of_pair [simp]: "value_of (m, q) = real_of_int m * p2 q"
  by (simp add: value_of_def)

lemma round_quotient_fl:
  assumes "0 \<le> a" "0 < b"
  shows "value_of (round_quotient a b) = fl (real_of_int a / real_of_int b)"
proof (cases "a = 0")
  case True
  then show ?thesis by (simp add: round_quotient_def fl_def)
next
  case False
  then have a: "0 < a" using assms by simp
  let ?x = "real_of_int a / real_of_int b"
  have x: "0 < ?x" using a assms by simp
  define q where "q = max (floor_log2 a b - 52) (- 1074)"
  have "\<bar>?x\<bar> = ?x" using x by (simp only: abs_of_pos)
  then have qe: "exponent_of ?x = q"
    unfolding exponent_of_def q_def floor_log2_correct[OF a assms(2)] by simp
  have m: "fst (round_quotient a b) = rne (?x / p2 q)" and e: "snd (round_quotient a b) = q"
  proof -
    show "snd (round_quotient a b) = q"
      using a by (simp add: round_quotient_def q_def Let_def)
    show "fst (round_quotient a b) = rne (?x / p2 q)"
    proof (cases "0 \<le> q")
      case True
      have d: "0 < b * 2 ^ nat q" using assms by simp
      have "fst (round_quotient a b) = round_half_even a (b * 2 ^ nat q)"
        using a True by (simp add: round_quotient_def q_def Let_def)
      also have "\<dots> = rne (real_of_int a / real_of_int (b * 2 ^ nat q))"
        by (rule round_half_even_rne[OF d])
      also have "real_of_int a / real_of_int (b * 2 ^ nat q) = ?x / p2 q"
        using True by (simp add: p2_nonneg_exp)
      finally show ?thesis .
    next
      case False
      then have neg: "q < 0" by simp
      have "fst (round_quotient a b) = round_half_even (a * 2 ^ nat (- q)) b"
        using a False by (simp add: round_quotient_def q_def Let_def)
      also have "\<dots> = rne (real_of_int (a * 2 ^ nat (- q)) / real_of_int b)"
        by (rule round_half_even_rne[OF assms(2)])
      also have "real_of_int (a * 2 ^ nat (- q)) / real_of_int b = ?x / p2 q"
        using neg by (simp add: p2_neg_exp)
      finally show ?thesis .
    qed
  qed
  have "value_of (round_quotient a b) = real_of_int (rne (?x / p2 q)) * p2 q"
    using m e by (cases "round_quotient a b") simp
  then show ?thesis using x qe a assms(2) by (simp add: fl_def)
qed

lemma p2_nonneg [simp]: "0 \<le> p2 q"
  using p2_pos[of q] by (rule less_imp_le)

lemma exponent_of_pos: "0 < x \<Longrightarrow> exponent_of x = max (\<lfloor>log 2 x\<rfloor> - 52) (- 1074)"
  by (simp add: exponent_of_def)

lemma p2_numeral_53: "p2 (q + 53) = p2 q * 2 ^ 53"
  using p2_add[of q 53] p2_nat[of 53] by simp

lemma p2_numeral_52: "p2 (q + 52) = p2 q * 2 ^ 52"
  using p2_add[of q 52] p2_nat[of 52] by simp

lemma scaled_upper:
  assumes "0 < x"
  shows "x / p2 (exponent_of x) < 2 ^ 53"
proof -
  let ?k = "\<lfloor>log 2 x\<rfloor>" and ?q = "exponent_of x"
  have "?k + 1 \<le> ?q + 53" using assms by (simp add: exponent_of_pos)
  then have "p2 (?k + 1) \<le> p2 (?q + 53)" by (rule p2_mono)
  with floor_log_bracket(2)[OF assms] have "x < p2 ?q * 2 ^ 53"
    by (simp add: p2_numeral_53)
  then show ?thesis by (simp add: field_simps)
qed

lemma scaled_lower:
  assumes "0 < x" "exponent_of x = \<lfloor>log 2 x\<rfloor> - 52"
  shows "2 ^ 52 \<le> x / p2 (exponent_of x)"
proof -
  let ?k = "\<lfloor>log 2 x\<rfloor>" and ?q = "exponent_of x"
  have "?q + 52 = ?k" using assms by simp
  then have "p2 (?q + 52) = p2 ?k" by simp
  with floor_log_bracket(1)[OF assms(1)] have "p2 ?q * 2 ^ 52 \<le> x"
    by (simp add: p2_numeral_52)
  then show ?thesis by (simp add: field_simps)
qed

lemma fl_pos_eq:
  "0 < x \<Longrightarrow> fl x = real_of_int (rne (x / p2 (exponent_of x))) * p2 (exponent_of x)"
  by (simp add: fl_def)

lemma fl_nonneg: "0 \<le> x \<Longrightarrow> 0 \<le> fl x"
proof (cases "x = 0")
  case True
  then show ?thesis by (simp add: fl_def)
next
  case False
  assume "0 \<le> x"
  with False have x: "0 < x" by simp
  have "real_of_int 0 \<le> x / p2 (exponent_of x)" using x by simp
  then have "0 \<le> rne (x / p2 (exponent_of x))" by (rule rne_ge)
  then show ?thesis using x by (simp add: fl_pos_eq)
qed

lemma fl_upper:
  assumes "0 < x"
  shows "fl x \<le> p2 (exponent_of x + 53)"
proof -
  have "x / p2 (exponent_of x) \<le> real_of_int (2 ^ 53)"
    using scaled_upper[OF assms] by simp
  then have "rne (x / p2 (exponent_of x)) \<le> 2 ^ 53" by (rule rne_le)
  then have "real_of_int (rne (x / p2 (exponent_of x))) \<le> 2 ^ 53"
    by (metis of_int_le_iff of_int_numeral of_int_power)
  then have "real_of_int (rne (x / p2 (exponent_of x))) * p2 (exponent_of x) \<le> 2 ^ 53 * p2 (exponent_of x)"
    by (rule mult_right_mono) simp
  then show ?thesis using assms by (simp add: fl_pos_eq p2_numeral_53 mult.commute)
qed

lemma fl_lower:
  assumes "0 < x" "- 1074 < exponent_of x"
  shows "p2 (exponent_of x + 52) \<le> fl x"
proof -
  have "exponent_of x = \<lfloor>log 2 x\<rfloor> - 52"
    using assms by (simp add: exponent_of_pos max_def split: if_splits)
  then have "real_of_int (2 ^ 52) \<le> x / p2 (exponent_of x)"
    using scaled_lower[OF assms(1)] by simp
  then have "2 ^ 52 \<le> rne (x / p2 (exponent_of x))" by (rule rne_ge)
  then have "2 ^ 52 \<le> real_of_int (rne (x / p2 (exponent_of x)))"
    by (metis of_int_le_iff of_int_numeral of_int_power)
  then have "2 ^ 52 * p2 (exponent_of x) \<le> real_of_int (rne (x / p2 (exponent_of x))) * p2 (exponent_of x)"
    by (rule mult_right_mono) simp
  then show ?thesis using assms by (simp add: fl_pos_eq p2_numeral_52 mult.commute)
qed

lemma exponent_of_mono:
  assumes "0 < x" "x \<le> y"
  shows "exponent_of x \<le> exponent_of y"
proof -
  have y: "0 < y" using assms by simp
  have "log 2 x \<le> log 2 y" using assms y by simp
  then have "\<lfloor>log 2 x\<rfloor> \<le> \<lfloor>log 2 y\<rfloor>" by (rule floor_mono)
  then show ?thesis using assms(1) y by (simp add: exponent_of_pos)
qed

lemma exponent_of_ge: "- 1074 \<le> exponent_of x"
  by (simp add: exponent_of_def)

lemma fl_mono:
  assumes "0 \<le> x" "x \<le> y"
  shows "fl x \<le> fl y"
proof (cases "x = 0")
  case True
  then show ?thesis using fl_nonneg[of y] assms by (simp add: fl_def)
next
  case False
  then have x: "0 < x" using assms by simp
  then have y: "0 < y" using assms by simp
  have qq: "exponent_of x \<le> exponent_of y" using exponent_of_mono[OF x assms(2)] .
  show ?thesis
  proof (cases "exponent_of x = exponent_of y")
    case True
    have "x / p2 (exponent_of y) \<le> y / p2 (exponent_of y)"
      using assms(2) by (simp add: divide_right_mono)
    then have "rne (x / p2 (exponent_of y)) \<le> rne (y / p2 (exponent_of y))" by (rule rne_mono)
    then have "real_of_int (rne (x / p2 (exponent_of y))) * p2 (exponent_of y)
        \<le> real_of_int (rne (y / p2 (exponent_of y))) * p2 (exponent_of y)"
      by (intro mult_right_mono) simp_all
    then show ?thesis using x y True by (simp add: fl_pos_eq)
  next
    case False
    with qq have lt: "exponent_of x + 1 \<le> exponent_of y" by simp
    have "- 1074 < exponent_of y" using lt exponent_of_ge[of x] by linarith
    then have low: "p2 (exponent_of y + 52) \<le> fl y" by (rule fl_lower[OF y])
    have "exponent_of x + 53 \<le> exponent_of y + 52" using lt by simp
    then have "p2 (exponent_of x + 53) \<le> p2 (exponent_of y + 52)" by (rule p2_mono)
    with fl_upper[OF x] low show ?thesis by linarith
  qed
qed

lemma p2_nonzero [simp]: "p2 q \<noteq> 0"
  by (simp add: p2_def)

lemma fl_error:
  assumes "p2 (- 1022) \<le> x"
  shows "\<bar>fl x - x\<bar> \<le> x / 2 ^ 53"
proof -
  have x: "0 < x" using assms p2_pos[of "- 1022"] by linarith
  let ?k = "\<lfloor>log 2 x\<rfloor>" and ?q = "exponent_of x"
  have "p2 (- 1022) < p2 (?k + 1)" using assms floor_log_bracket(2)[OF x] by linarith
  then have "- 1022 < ?k + 1" by (simp only: p2_less_iff)
  then have "- 1074 \<le> ?k - 52" by linarith
  then have q: "?q = ?k - 52"
    unfolding exponent_of_pos[OF x] by (rule max_absorb1)
  have lo: "2 ^ 52 \<le> x / p2 ?q" by (rule scaled_lower[OF x q])
  have "\<bar>real_of_int (rne (x / p2 ?q)) - x / p2 ?q\<bar> \<le> 1 / 2" by (rule rne_error)
  then have "\<bar>real_of_int (rne (x / p2 ?q)) - x / p2 ?q\<bar> * p2 ?q \<le> 1 / 2 * p2 ?q"
    by (rule mult_right_mono) simp
  moreover have "\<bar>real_of_int (rne (x / p2 ?q)) - x / p2 ?q\<bar> * p2 ?q = \<bar>fl x - x\<bar>"
  proof -
    have "\<bar>real_of_int (rne (x / p2 ?q)) - x / p2 ?q\<bar> * p2 ?q
        = \<bar>(real_of_int (rne (x / p2 ?q)) - x / p2 ?q) * p2 ?q\<bar>"
      by (simp add: abs_mult)
    also have "(real_of_int (rne (x / p2 ?q)) - x / p2 ?q) * p2 ?q = fl x - x"
      using x by (simp add: fl_pos_eq left_diff_distrib)
    finally show ?thesis .
  qed
  moreover have "1 / 2 * p2 ?q \<le> x / 2 ^ 53"
  proof -
    have "2 ^ 52 * p2 ?q \<le> x" using lo by (simp add: field_simps)
    then show ?thesis by simp
  qed
  ultimately show ?thesis by linarith
qed

lemma fl_of_int:
  assumes "0 \<le> n" "n < 2 ^ 53"
  shows "fl (real_of_int n) = real_of_int n"
proof (cases "n = 0")
  case True
  then show ?thesis by (simp add: fl_def)
next
  case False
  then have n: "0 < n" using assms by simp
  let ?x = "real_of_int n"
  have x: "0 < ?x" using n by simp
  let ?k = "\<lfloor>log 2 ?x\<rfloor>" and ?q = "exponent_of ?x"
  have "?x < 2 ^ 53" using assms(2) by (metis of_int_less_iff of_int_numeral of_int_power)
  then have "?x < p2 53" using p2_nat[of 53] by simp
  with floor_log_bracket(1)[OF x] have "p2 ?k < p2 53" by linarith
  then have "?k < 53" by (simp only: p2_less_iff)
  then have q: "?q \<le> 0" using x by (simp add: exponent_of_pos)
  have pq: "p2 ?q = 1 / 2 ^ nat (- ?q)"
    using p2_neg[of "- ?q"] p2_nonneg_exp[of "- ?q"] q by simp
  have "?x / p2 ?q = real_of_int (n * 2 ^ nat (- ?q))" by (simp add: pq)
  then have "rne (?x / p2 ?q) = n * 2 ^ nat (- ?q)" by (simp only: rne_of_int)
  then have "fl ?x = real_of_int (n * 2 ^ nat (- ?q)) * p2 ?q"
    using x by (simp only: fl_pos_eq)
  then show ?thesis by (simp add: pq)
qed

lemma round_quotient_nonneg:
  assumes "0 \<le> a" "0 < b"
  shows "0 \<le> fst (round_quotient a b)"
proof -
  have r: "0 \<le> round_half_even n d" if "0 \<le> n" "0 < d" for n d
  proof -
    have "real_of_int 0 \<le> real_of_int n / real_of_int d" using that by simp
    then have "0 \<le> rne (real_of_int n / real_of_int d)" by (rule rne_ge)
    then show ?thesis using round_half_even_rne[OF that(2)] by simp
  qed
  show ?thesis
    using assms by (auto simp: round_quotient_def Let_def intro!: r)
qed

lemma round_quotient_in_range:
  assumes "0 \<le> a" "0 < b" "real_of_int a / real_of_int b < 2 ^ 1023"
  shows "\<not> too_large (round_quotient a b)"
proof (cases "a = 0")
  case True
  then show ?thesis by (simp add: round_quotient_def too_large_def)
next
  case False
  then have a: "0 < a" using assms by simp
  have "p2 (floor_log2 a b) \<le> real_of_int a / real_of_int b"
    by (rule floor_log2_bracket(1)[OF a assms(2)])
  with assms(3) have "p2 (floor_log2 a b) < p2 1023" using p2_nat[of 1023] by simp
  then have "floor_log2 a b < 1023" by (simp only: p2_less_iff)
  then have "snd (round_quotient a b) < 971"
    using a by (simp add: round_quotient_def Let_def)
  then show ?thesis by (cases "round_quotient a b") (simp add: too_large_def)
qed

lemma py_truediv_value:
  assumes "0 \<le> a" "0 < b" "real_of_int a / real_of_int b < 2 ^ 1023"
  shows "\<exists>d. py_truediv a b = Inr d \<and> 0 \<le> fst d
           \<and> value_of d = fl (real_of_int a / real_of_int b)"
proof -
  have "py_truediv a b = Inr (round_quotient a b)"
    using assms(2) round_quotient_in_range[OF assms] by (simp add: py_truediv_def)
  then show ?thesis
    using round_quotient_nonneg[OF assms(1,2)] round_quotient_fl[OF assms(1,2)] by simp
qed

lemma py_float_value:
  assumes "0 \<le> n" "n < 2 ^ 53"
  shows "\<exists>d. py_float n = Inr d \<and> 0 \<le> fst d \<and> value_of d = real_of_int n"
proof -
  have "real_of_int n < 2 ^ 53"
    using assms(2) by (metis of_int_less_iff of_int_numeral of_int_power)
  then have "real_of_int n / real_of_int 1 < 2 ^ 1023" by simp
  then have "\<not> too_large (round_quotient n 1)"
    using round_quotient_in_range[of n 1] assms(1) by simp
  then have "py_float n = Inr (round_quotient n 1)" by (simp add: py_float_def)
  moreover have "value_of (round_quotient n 1) = real_of_int n"
    using round_quotient_fl[of n 1] assms fl_of_int[OF assms] by simp
  ultimately show ?thesis using round_quotient_nonneg[of n 1] assms(1) by simp
qed

lemma float_mul_value:
  assumes "0 \<le> fst x" "0 \<le> fst y" "value_of x * value_of y < 2 ^ 1023"
  shows "\<exists>d. float_mul x y = Finite d \<and> 0 \<le> fst d
           \<and> value_of d = fl (value_of x * value_of y)"
proof -
  obtain m1 q1 where x: "x = (m1, q1)" by (cases x)
  obtain m2 q2 where y: "y = (m2, q2)" by (cases y)
  define m where "m = m1 * m2"
  define q where "q = q1 + q2"
  have m: "0 \<le> m" using assms(1,2) by (simp add: x y m_def)
  have v: "value_of x * value_of y = real_of_int m * p2 q"
    by (simp add: x y m_def q_def p2_add)
  define a where "a = (if 0 \<le> q then m * 2 ^ nat q else m)"
  define b where "b = (if 0 \<le> q then 1 else (2::int) ^ nat (- q))"
  have a: "0 \<le> a" and b: "0 < b" using m by (simp_all add: a_def b_def)
  have ab: "real_of_int a / real_of_int b = real_of_int m * p2 q"
    by (simp add: a_def b_def p2_nonneg_exp p2_neg_exp)
  have d: "float_mul x y = (if too_large (round_quotient a b) then Infinity
                            else Finite (round_quotient a b))"
    by (simp add: float_mul_def x y a_def b_def m_def q_def Let_def)
  have "\<not> too_large (round_quotient a b)"
    using round_quotient_in_range[OF a b] assms(3) by (simp add: ab v)
  then have "float_mul x y = Finite (round_quotient a b)" using d by simp
  then show ?thesis
    using round_quotient_nonneg[OF a b] round_quotient_fl[OF a b] by (simp add: ab v)
qed

lemma py_int_floor:
  assumes "0 \<le> fst d"
  shows "py_int (Finite d) = Inr \<lfloor>value_of d\<rfloor>"
proof -
  obtain m q where d: "d = (m, q)" by (cases d)
  have m: "0 \<le> m" using assms by (simp add: d)
  show ?thesis
  proof (cases "0 \<le> q")
    case True
    have "real_of_int m * p2 q = real_of_int (m * 2 ^ nat q)"
      using True by (simp add: p2_nonneg_exp)
    then have "\<lfloor>real_of_int m * p2 q\<rfloor> = m * 2 ^ nat q" by (simp only: floor_of_int)
    then show ?thesis using True by (simp add: py_int_def d)
  next
    case False
    then have neg: "q < 0" by simp
    have "real_of_int m * p2 q = real_of_int m / real_of_int (2 ^ nat (- q))"
      using neg by (simp add: p2_neg_exp)
    then have "\<lfloor>real_of_int m * p2 q\<rfloor> = m div 2 ^ nat (- q)"
      by (simp only: floor_divide_of_int_eq)
    then show ?thesis using False m by (simp add: py_int_def d)
  qed
qed

lemma int_of_scaled_value:
  assumes "0 \<le> n" "n < 2 ^ 53" "0 \<le> fst x" "real_of_int n * value_of x < 2 ^ 1023"
  shows "int_of_scaled n x = Inr \<lfloor>fl (real_of_int n * value_of x)\<rfloor>"
proof -
  obtain f where f: "py_float n = Inr f" "0 \<le> fst f" "value_of f = real_of_int n"
    using py_float_value[OF assms(1,2)] by blast
  obtain d where d: "float_mul f x = Finite d" "0 \<le> fst d"
      "value_of d = fl (value_of f * value_of x)"
    using float_mul_value[OF f(2) assms(3)] assms(4) f(3) by auto
  show ?thesis
    using f d py_int_floor[OF d(2)] by (simp add: int_of_scaled_def)
qed

lemma fl_le_of_int:
  assumes "0 \<le> x" "x \<le> real_of_int n" "n < 2 ^ 53"
  shows "fl x \<le> real_of_int n"
proof -
  have "0 \<le> n" using assms(1,2) by linarith
  then have "fl (real_of_int n) = real_of_int n" using assms(3) by (rule fl_of_int)
  then show ?thesis using fl_mono[OF assms(1,2)] by simp
qed

lemma fl_le_one: "0 \<le> x \<Longrightarrow> x \<le> 1 \<Longrightarrow> fl x \<le> 1"
  using fl_le_of_int[of x 1] by simp

lemma big_bound: "(2::real) ^ 53 < 2 ^ 1023"
  by (rule power_strict_increasing) simp_all

lemma ratio_value:
  assumes "0 \<le> a" "0 < b" "a \<le> b"
  shows "\<exists>r. py_truediv a b = Inr r \<and> 0 \<le> fst r
           \<and> value_of r = fl (real_of_int a / real_of_int b)
           \<and> 0 \<le> value_of r \<and> value_of r \<le> 1"
proof -
  let ?x = "real_of_int a / real_of_int b"
  have x0: "0 \<le> ?x" and x1: "?x \<le> 1" using assms by simp_all
  have "(1::real) < 2 ^ 1023" by (rule one_less_power) simp_all
  with x1 have "?x < 2 ^ 1023" by linarith
  from py_truediv_value[OF assms(1,2) this]
  obtain r where r: "py_truediv a b = Inr r" "0 \<le> fst r" "value_of r = fl ?x" by blast
  show ?thesis using r fl_nonneg[OF x0] fl_le_one[OF x0 x1] by simp
qed

lemma scaled_value:
  assumes "0 \<le> n" "n < 2 ^ 53" "0 \<le> fst r" "0 \<le> value_of r" "value_of r \<le> 1"
  shows "int_of_scaled n r = Inr \<lfloor>fl (real_of_int n * value_of r)\<rfloor>"
proof -
  have n: "0 \<le> real_of_int n" using assms(1) by simp
  have "real_of_int n * value_of r \<le> real_of_int n * 1"
    using assms(5) n by (rule mult_left_mono)
  moreover have "real_of_int n < 2 ^ 53"
    using assms(2) by (metis of_int_less_iff of_int_numeral of_int_power)
  ultimately have "real_of_int n * value_of r < 2 ^ 1023" using big_bound by linarith
  then show ?thesis by (rule int_of_scaled_value[OF assms(1,2,3)])
qed

lemma new_size_value:
  assumes "0 \<le> t" "t \<le> max w h" "0 \<le> w" "0 \<le> h" "0 < max w h" "max w h < 2 ^ 53"
  shows "new_size t w h =
           Inr (\<lfloor>fl (real_of_int w * fl (real_of_int t / real_of_int (max w h)))\<rfloor>,
                \<lfloor>fl (real_of_int h * fl (real_of_int t / real_of_int (max w h)))\<rfloor>)"
proof -
  obtain r where r: "py_truediv t (max w h) = Inr r" "0 \<le> fst r"
      "value_of r = fl (real_of_int t / real_of_int (max w h))"
      "0 \<le> value_of r" "value_of r \<le> 1"
    using ratio_value[OF assms(1,5,2)] by blast
  have w: "w < 2 ^ 53" and h: "h < 2 ^ 53" using assms(6) by simp_all
  show ?thesis
    using r scaled_value[OF assms(3) w r(2,4,5)] scaled_value[OF assms(4) h r(2,4,5)]
    by (simp add: new_size_def)
qed

lemma progress_value_eq:
  assumes "i < n"
  shows "progress_value i n = Inr \<lfloor>fl (100 * fl (real (Suc i) / real n))\<rfloor>"
proof -
  have a: "0 \<le> int i + 1" and b: "0 < int n" and ab: "int i + 1 \<le> int n"
    using assms by simp_all
  obtain r where r: "py_truediv (int i + 1) (int n) = Inr r" "0 \<le> fst r"
      "value_of r = fl (real_of_int (int i + 1) / real_of_int (int n))"
      "0 \<le> value_of r" "value_of r \<le> 1"
    using ratio_value[OF a b ab] by blast
  have e: "real_of_int (int i + 1) / real_of_int (int n) = real (Suc i) / real n"
    by simp
  have "int_of_scaled 100 r = Inr \<lfloor>fl (real_of_int 100 * value_of r)\<rfloor>"
    by (rule scaled_value[OF _ _ r(2,4,5)]) simp_all
  then show ?thesis using r(1,3) unfolding e by (simp add: progress_value_def)
qed

lemma run_reaches:
  assumes "reaches_enumeration cfg env"
  shows "run cfg env =
           (if creates_directory cfg env then [Mkdir (output_dir cfg)] else []) @ convert cfg env"
  using assms by (auto simp: run_def reaches_enumeration_def creates_directory_def)

lemma process_all_completes:
  assumes "i + length files \<le> n"
  shows "\<exists>ps. length ps = length files
           \<and> (\<forall>j < length files. progress_value (i + j) n = Inr (ps ! j))
           \<and> process_all cfg env n i files =
               (concat (map2 (\<lambda>f p. process_file cfg env f @ [Progress p]) files ps), None)"
  using assms
proof (induction files arbitrary: i)
  case Nil
  then show ?case by simp
next
  case (Cons f files)
  have "i < n" using Cons.prems by simp
  then obtain p where p: "progress_value i n = Inr p"
    using progress_value_eq by blast
  have "Suc i + length files \<le> n" using Cons.prems by simp
  from Cons.IH[OF this] obtain ps where ps: "length ps = length files"
      "\<forall>j < length files. progress_value (Suc i + j) n = Inr (ps ! j)"
      "process_all cfg env n (Suc i) files =
         (concat (map2 (\<lambda>f p. process_file cfg env f @ [Progress p]) files ps), None)"
    by blast
  have a: "length (p # ps) = length (f # files)" using ps(1) by simp
  have b: "\<forall>j < length (f # files). progress_value (i + j) n = Inr ((p # ps) ! j)"
  proof (intro allI impI)
    fix j assume "j < length (f # files)"
    then show "progress_value (i + j) n = Inr ((p # ps) ! j)"
      using p ps(2) by (cases j) simp_all
  qed
  have c: "process_all cfg env n i (f # files) =
      (concat (map2 (\<lambda>f p. process_file cfg env f @ [Progress p]) (f # files) (p # ps)), None)"
    using p ps(3) by simp
  show ?case using a b c by blast
qed

lemma convert_completes:
  assumes "image_files cfg env = files" "files \<noteq> []"
  shows "\<exists>ps. length ps = length files
           \<and> (\<forall>j < length files. progress_value j (length files) = Inr (ps ! j))
           \<and> convert cfg env =
               concat (map2 (\<lambda>f p. process_file cfg env f @ [Progress p]) files ps)
                 @ [Log ''Conversion completed.'', Finished]"
proof -
  from process_all_completes[of 0 files "length files" cfg env]
  obtain ps where ps: "length ps = length files"
      "\<forall>j < length files. progress_value j (length files) = Inr (ps ! j)"
      "process_all cfg env (length files) 0 files =
         (concat (map2 (\<lambda>f p. process_file cfg env f @ [Progress p]) files ps), None)"
    by auto
  have "convert cfg env =
      concat (map2 (\<lambda>f p. process_file cfg env f @ [Progress p]) files ps)
        @ [Log ''Conversion completed.'', Finished]"
    using assms ps(3) by (simp add: convert_def Let_def)
  then show ?thesis using ps(1,2) by blast
qed

section \<open>Events of a run\<close>

lemma try_file_events:
  "e \<in> set (fst (try_file cfg env p)) \<Longrightarrow>
     (\<exists>c. e = Save c) \<or> e = Log (''Processed: '' @ snd p)"
  by (auto simp: try_file_def Let_def split: sum.splits option.splits)

lemma process_file_events:
  "e \<in> set (process_file cfg env p) \<Longrightarrow> (\<exists>c. e = Save c) \<or> (\<exists>l. e = Log l)"
proof -
  assume e: "e \<in> set (process_file cfg env p)"
  obtain evs r where t: "try_file cfg env p = (evs, r)"
    by (cases "try_file cfg env p")
  have "\<And>x. x \<in> set evs \<Longrightarrow> (\<exists>c. x = Save c) \<or> (\<exists>l. x = Log l)"
    using try_file_events[of _ cfg env p] t by auto
  with e t show ?thesis
    by (cases r) (auto simp: process_file_def)
qed

lemma process_all_events:
  "e \<in> set (fst (process_all cfg env n i files)) \<Longrightarrow>
     (\<exists>c. e = Save c) \<or> (\<exists>l. e = Log l) \<or> (\<exists>p. e = Progress p)"
proof (induction files arbitrary: i e)
  case Nil
  then show ?case by simp
next
  case (Cons f files)
  show ?case
  proof (cases "progress_value i n")
    case (Inl msg)
    with Cons.prems show ?thesis by (auto dest: process_file_events)
  next
    case (Inr p)
    obtain later err where r: "process_all cfg env n (Suc i) files = (later, err)"
      by (cases "process_all cfg env n (Suc i) files")
    from Cons.prems Inr r
    have "e \<in> set (process_file cfg env f) \<or> e = Progress p \<or> e \<in> set later"
      by auto
    then show ?thesis using Cons.IH[of e "Suc i"] r by (auto dest: process_file_events)
  qed
qed

lemma convert_no_mkdir: "Mkdir d \<notin> set (convert cfg env)"
proof -
  have "Mkdir d \<notin> set (fst (process_all cfg env n i files))" for n i files
    using process_all_events[of "Mkdir d" cfg env n i files] by auto
  then show ?thesis
    by (auto simp: convert_def Let_def split: prod.splits option.splits) (metis fst_conv)+
qed

section \<open>Creation of the destination directory\<close>

text \<open>
  C7. In overwrite mode a run never creates a directory. Otherwise it creates the
  destination directory exactly when that directory does not exist, as its first action.
\<close>

theorem destination_directory_creation:
  "(overwrite cfg \<longrightarrow> (\<forall>d. Mkdir d \<notin> set (run cfg env))) \<and>
   (\<not> overwrite cfg \<longrightarrow>
      (if path_exists env (output_dir cfg) then \<forall>d. Mkdir d \<notin> set (run cfg env)
       else hd (run cfg env) = Mkdir (output_dir cfg)))"
  by (auto simp: run_def convert_no_mkdir split: option.splits)

theorem destination_directory_creation_witness:
  "overwrite (sample_cfg\<lparr>overwrite := True\<rparr>) \<and>
   (\<forall>d. Mkdir d \<notin> set (run (sample_cfg\<lparr>overwrite := True\<rparr>) sample_env)) \<and>
   \<not> overwrite sample_cfg \<and> \<not> path_exists sample_env (output_dir sample_cfg) \<and>
   hd (run sample_cfg sample_env) = Mkdir ''/out'' \<and>
   \<not> overwrite (sample_cfg\<lparr>output_dir := ''/in''\<rparr>) \<and>
   path_exists sample_env (output_dir (sample_cfg\<lparr>output_dir := ''/in''\<rparr>)) \<and>
   (\<forall>d. Mkdir d \<notin> set (run (sample_cfg\<lparr>output_dir := ''/in''\<rparr>) sample_env))"
  using destination_directory_creation [of "sample_cfg\<lparr>overwrite := True\<rparr>" sample_env]
    destination_directory_creation [of sample_cfg sample_env]
    destination_directory_creation [of "sample_cfg\<lparr>output_dir := ''/in''\<rparr>" sample_env]
  by (simp add: sample_cfg_def sample_env_def)

section \<open>A directory without images\<close>

text \<open>
  C5. When no file matches, and the run gets to the enumeration, it logs that no
  images were found, signals completion (twice: once before the \<^verbatim>\<open>return\<close> and once
  in the \<^verbatim>\<open>finally\<close> clause), logs no error and emits no progress value.
\<close>

theorem no_images_found:
  assumes "image_files cfg env = []" and "reaches_enumeration cfg env"
  shows "run cfg env =
           (if creates_directory cfg env then [Mkdir (output_dir cfg)] else [])
             @ [Log ''No images found in the source folder.'', Finished, Finished]
         \<and> (\<forall>p. Progress p \<notin> set (run cfg env))"
proof -
  have "convert cfg env = [Log ''No images found in the source folder.'', Finished, Finished]"
    using assms(1) by (simp add: convert_def)
  then show ?thesis using run_reaches[OF assms(2)] by simp
qed

theorem no_images_found_witness:
  "image_files sample_cfg empty_env = [] \<and> reaches_enumeration sample_cfg empty_env
   \<and> run sample_cfg empty_env =
       [Mkdir ''/out'', Log ''No images found in the source folder.'', Finished, Finished]
   \<and> (\<forall>p. Progress p \<notin> set (run sample_cfg empty_env))"
proof -
  have h1: "image_files sample_cfg empty_env = []"
    by (simp add: image_files_def glob_def empty_env_def sample_env_def sample_cfg_def)
  have h2: "reaches_enumeration sample_cfg empty_env"
    by (simp add: reaches_enumeration_def empty_env_def sample_env_def)
  have h3: "creates_directory sample_cfg empty_env"
    by (simp add: creates_directory_def empty_env_def sample_env_def sample_cfg_def)
  show ?thesis
    using no_images_found[OF h1 h2] h1 h2 h3 by (simp add: sample_cfg_def)
qed

lemma flatten_size [simp]: "img_size (flatten x) = img_size x"
  by (simp add: flatten_def new_image_def paste_def Let_def)

lemma clear_info_size [simp]: "img_size (clear_info x) = img_size x"
  by (simp add: clear_info_def)

lemma clear_info_mode [simp]: "img_mode (clear_info x) = img_mode x"
  by (simp add: clear_info_def)

lemma clear_info_data [simp]: "img_data (clear_info x) = img_data x"
  by (simp add: clear_info_def)

lemma clear_info_idem [simp]: "clear_info (clear_info x) = clear_info x"
  by (simp add: clear_info_def)

lemma encoder_call_image:
  "save_image (encoder_call cfg p x) =
     (if save_format (encoder_call cfg p x) = ''JPEG'' then flatten x else x)"
  by (simp add: encoder_call_def Let_def)

lemma process_file_save:
  assumes "Save c \<in> set (process_file cfg env p)"
  shows "\<exists>img new_img. image_open env p = Inr img
           \<and> scaled cfg env (clear_info img) = Inr new_img
           \<and> c = encoder_call cfg p (clear_info new_img)"
proof (cases "image_open env p")
  case (Inl msg)
  with assms show ?thesis by (simp add: process_file_def try_file_def)
next
  case (Inr img)
  show ?thesis
  proof (cases "scaled cfg env (clear_info img)")
    case (Inl msg)
    with Inr assms show ?thesis by (simp add: process_file_def try_file_def)
  next
    case new: (Inr new_img)
    with Inr assms have "c = encoder_call cfg p (clear_info new_img)"
      by (cases "save_error env (encoder_call cfg p (clear_info new_img))")
         (simp_all add: process_file_def try_file_def Let_def)
    with Inr new show ?thesis by blast
  qed
qed

section \<open>Images within the target size\<close>

text \<open>
  C1. When the longest side of a file's image does not exceed the target size, the image
  handed to the encoder has the dimensions of the input: it is the copy of the opened
  image with its metadata cleared (converted to RGB first for a JPEG save), never a
  resampled one.
\<close>

theorem small_image_keeps_its_size:
  assumes "image_open env p = Inr img" and "img_size img = (w, h)"
    and "max w h \<le> target_size cfg" and "Save c \<in> set (process_file cfg env p)"
  shows "img_size (save_image c) = (w, h)
         \<and> save_image c =
             (if save_format c = ''JPEG'' then flatten (clear_info img) else clear_info img)"
proof -
  obtain new_img where n: "scaled cfg env (clear_info img) = Inr new_img"
      "c = encoder_call cfg p (clear_info new_img)"
    using process_file_save[OF assms(4)] assms(1) by auto
  have "scaled cfg env (clear_info img) = copy env (clear_info img)"
    using assms(2,3) by (simp add: scaled_def)
  with n(1) have "new_img = clear_info img"
    by (cases "load_error env (clear_info img)") (simp_all add: copy_def)
  then show ?thesis using n(2) assms(2) by (simp add: encoder_call_image)
qed

theorem small_image_keeps_its_size_witness:
  "image_open sample_env (''/in'', ''small.png'')
     = Inr (sample_image (640, 480) ''RGB'' (''/in'', ''small.png''))
   \<and> img_size (sample_image (640, 480) ''RGB'' (''/in'', ''small.png'')) = (640, 480)
   \<and> max 640 480 \<le> target_size sample_cfg
   \<and> Save (encoder_call sample_cfg (''/in'', ''small.png'')
         (clear_info (sample_image (640, 480) ''RGB'' (''/in'', ''small.png''))))
       \<in> set (process_file sample_cfg sample_env (''/in'', ''small.png''))
   \<and> img_size (save_image (encoder_call sample_cfg (''/in'', ''small.png'')
         (clear_info (sample_image (640, 480) ''RGB'' (''/in'', ''small.png''))))) = (640, 480)"
proof -
  let ?p = "(''/in'', ''small.png'')"
  let ?img = "sample_image (640, 480) ''RGB'' ?p"
  have h1: "image_open sample_env ?p = Inr ?img"
    by (simp add: sample_env_def sample_open_def)
  have h2: "img_size ?img = (640, 480)" by (simp add: sample_image_def)
  have h3: "max 640 480 \<le> target_size sample_cfg" by (simp add: sample_cfg_def)
  have s: "scaled sample_cfg sample_env (clear_info ?img) = Inr (clear_info ?img)"
    using h2 h3 by (simp add: scaled_def copy_def sample_env_def)
  have h4: "Save (encoder_call sample_cfg ?p (clear_info ?img))
      \<in> set (process_file sample_cfg sample_env ?p)"
    using h1 s by (simp add: process_file_def try_file_def Let_def sample_env_def)
  show ?thesis
    using small_image_keeps_its_size[OF h1 h2 h3 h4] h1 h2 h3 h4 by simp
qed











lemma encoder_call_path:
  "snd (save_path (encoder_call cfg p x)) = snd p"
  by (simp add: encoder_call_def Let_def)


lemma endswith_iff: "endswith name ending \<longleftrightarrow> (\<exists>pre. name = pre @ ending)"
proof
  assume "endswith name ending"
  then have "name = take (length name - length ending) name @ ending"
    by (metis append_take_drop_id endswith_def)
  then show "\<exists>pre. name = pre @ ending" ..
next
  assume "\<exists>pre. name = pre @ ending"
  then show "endswith name ending" by (auto simp: endswith_def)
qed

lemma endswith_Cons:
  "endswith (c # cs) ending \<longleftrightarrow> ending = c # cs \<or> endswith cs ending"
  unfolding endswith_iff by (auto simp: Cons_eq_append_conv)

lemma endswith_Nil: "endswith [] ending \<longleftrightarrow> ending = []"
  by (auto simp: endswith_def)

lemma fnmatch_literal:
  "CHR ''*'' \<notin> set pat \<Longrightarrow> fnmatch pat name \<longleftrightarrow> name = pat"
  by (induction pat name rule: fnmatch.induct) auto

lemma fnmatch_star:
  assumes "CHR ''*'' \<notin> set pat"
  shows "fnmatch (CHR ''*'' # pat) name \<longleftrightarrow> endswith name pat"
proof (induction name)
  case Nil
  show ?case using fnmatch_literal[OF assms, of "[]"] by (auto simp: endswith_Nil)
next
  case (Cons c cs)
  show ?case using Cons.IH fnmatch_literal[OF assms, of "c # cs"]
    by (auto simp: endswith_Cons)
qed

lemma glob_star:
  assumes "\<not> ignore_case env" and "CHR ''*'' \<notin> set ending"
  shows "glob env dir (CHR ''*'' # ending) =
           map (Pair dir) (filter (\<lambda>name. endswith name ending) (scandir env dir))"
  using assms by (simp add: glob_def fnmatch_star)

lemma image_files_endings:
  assumes "\<not> ignore_case env"
  shows "image_files cfg env =
           map (Pair (input_dir cfg))
             (filter (\<lambda>name. endswith name ''.jpg'') (scandir env (input_dir cfg))
              @ filter (\<lambda>name. endswith name ''.jpeg'') (scandir env (input_dir cfg))
              @ filter (\<lambda>name. endswith name ''.png'') (scandir env (input_dir cfg)))"
proof -
  have "glob env (input_dir cfg) ''*.jpg''
      = map (Pair (input_dir cfg)) (filter (\<lambda>name. endswith name ''.jpg'') (scandir env (input_dir cfg)))"
    using glob_star[OF assms, of "''.jpg''"] by simp
  moreover have "glob env (input_dir cfg) ''*.jpeg''
      = map (Pair (input_dir cfg)) (filter (\<lambda>name. endswith name ''.jpeg'') (scandir env (input_dir cfg)))"
    using glob_star[OF assms, of "''.jpeg''"] by simp
  moreover have "glob env (input_dir cfg) ''*.png''
      = map (Pair (input_dir cfg)) (filter (\<lambda>name. endswith name ''.png'') (scandir env (input_dir cfg)))"
    using glob_star[OF assms, of "''.png''"] by simp
  ultimately show ?thesis by (simp add: image_files_def)
qed

section \<open>The encoder follows the extension\<close>











lemma process_all_saves:
  "Save c \<in> set (fst (process_all cfg env n i files)) \<Longrightarrow>
     \<exists>f \<in> set files. Save c \<in> set (process_file cfg env f)"
proof (induction files arbitrary: i)
  case Nil
  then show ?case by simp
next
  case (Cons f files)
  show ?case
  proof (cases "progress_value i n")
    case (Inl msg)
    with Cons.prems show ?thesis by auto
  next
    case (Inr p)
    obtain later err where r: "process_all cfg env n (Suc i) files = (later, err)"
      by (cases "process_all cfg env n (Suc i) files")
    from Cons.prems Inr r
    have "Save c \<in> set (process_file cfg env f) \<or> Save c \<in> set later"
      by auto
    then show ?thesis using Cons.IH[of "Suc i"] r by auto
  qed
qed

lemma run_saves:
  assumes "Save c \<in> set (run cfg env)"
  shows "\<exists>f \<in> set (image_files cfg env). Save c \<in> set (process_file cfg env f)"
proof -
  have "Save c \<in> set (convert cfg env)"
    using assms by (auto simp: run_def split: if_splits option.splits)
  then have "Save c \<in> set (fst (process_all cfg env (length (image_files cfg env)) 0
      (image_files cfg env)))"
    by (cases "process_all cfg env (length (image_files cfg env)) 0 (image_files cfg env)")
       (auto simp: convert_def Let_def split: if_splits option.splits)
  then show ?thesis by (rule process_all_saves)
qed

lemma process_file_save_name:
  assumes "Save c \<in> set (process_file cfg env f)"
  shows "snd (save_path c) = snd f"
  using process_file_save[OF assms] by (auto simp: encoder_call_path)


section \<open>Enumeration of the files\<close>

text \<open>
  C10. When names are matched with regard to case, the enumerated files are the entries
  of the source directory whose names end in \<^verbatim>\<open>.jpg\<close>, then those that end in
  \<^verbatim>\<open>.jpeg\<close>, then those that end in \<^verbatim>\<open>.png\<close>, each group in listing order and
  the endings in lower case exactly. Every call of the encoder is for one of these
  names; a name with another ending, such as \<^verbatim>\<open>.JPG\<close>, is not enumerated and nothing
  is saved under it.
\<close>

theorem enumeration_is_case_sensitive:
  assumes "\<not> ignore_case env"
  shows "image_files cfg env =
           map (Pair (input_dir cfg))
             (filter (\<lambda>name. endswith name ''.jpg'') (scandir env (input_dir cfg))
              @ filter (\<lambda>name. endswith name ''.jpeg'') (scandir env (input_dir cfg))
              @ filter (\<lambda>name. endswith name ''.png'') (scandir env (input_dir cfg)))
         \<and> (\<forall>name. \<not> (endswith name ''.jpg'' \<or> endswith name ''.jpeg'' \<or> endswith name ''.png'')
               \<longrightarrow> (input_dir cfg, name) \<notin> set (image_files cfg env)
                   \<and> (\<forall>c. Save c \<in> set (run cfg env) \<longrightarrow> snd (save_path c) \<noteq> name))"
proof -
  note files = image_files_endings[OF assms, of cfg]
  have "(input_dir cfg, name) \<notin> set (image_files cfg env)
      \<and> (\<forall>c. Save c \<in> set (run cfg env) \<longrightarrow> snd (save_path c) \<noteq> name)"
    if n: "\<not> (endswith name ''.jpg'' \<or> endswith name ''.jpeg'' \<or> endswith name ''.png'')"
    for name
  proof -
    have a: "f \<in> set (image_files cfg env) \<Longrightarrow> snd f \<noteq> name" for f
      using n unfolding files by auto
    have "snd (save_path c) \<noteq> name" if sv: "Save c \<in> set (run cfg env)" for c
    proof -
      obtain f where f: "f \<in> set (image_files cfg env)" "Save c \<in> set (process_file cfg env f)"
        using run_saves[OF sv] by blast
      show ?thesis using a[OF f(1)] process_file_save_name[OF f(2)] by simp
    qed
    then show ?thesis using a by fastforce
  qed
  then show ?thesis using files by blast
qed

theorem enumeration_is_case_sensitive_witness:
  "\<not> ignore_case sample_env
   \<and> ''B.JPG'' \<in> set (scandir sample_env (input_dir sample_cfg))
   \<and> \<not> (endswith ''B.JPG'' ''.jpg'' \<or> endswith ''B.JPG'' ''.jpeg'' \<or> endswith ''B.JPG'' ''.png'')
   \<and> image_files sample_cfg sample_env =
       [(''/in'', ''a.jpg''), (''/in'', ''d.jpeg''), (''/in'', ''c.png''), (''/in'', ''e.png''),
        (''/in'', ''small.png'')]
   \<and> (''/in'', ''B.JPG'') \<notin> set (image_files sample_cfg sample_env)
   \<and> \<not> (\<exists>c. Save c \<in> set (run sample_cfg sample_env) \<and> snd (save_path c) = ''B.JPG'')"
proof -
  have h1: "\<not> ignore_case sample_env" by (simp add: sample_env_def)
  have h2: "\<not> (endswith ''B.JPG'' ''.jpg'' \<or> endswith ''B.JPG'' ''.jpeg''
      \<or> endswith ''B.JPG'' ''.png'')"
    by (simp add: endswith_def)
  have h3: "''B.JPG'' \<in> set (scandir sample_env (input_dir sample_cfg))"
    by (simp add: sample_env_def)
  have l: "scandir sample_env ''/in'' =
      [''a.jpg'', ''B.JPG'', ''c.png'', ''d.jpeg'', ''e.png'', ''notes.txt'', ''small.png'']"
    by (simp add: sample_env_def)
  have d: "input_dir sample_cfg = ''/in''" by (simp add: sample_cfg_def)
  from enumeration_is_case_sensitive[OF h1, of sample_cfg, THEN conjunct1]
  have "image_files sample_cfg sample_env =
       [(''/in'', ''a.jpg''), (''/in'', ''d.jpeg''), (''/in'', ''c.png''), (''/in'', ''e.png''),
        (''/in'', ''small.png'')]"
    unfolding d l by (simp add: endswith_def)
  moreover from enumeration_is_case_sensitive[OF h1, of sample_cfg] h2
  have "(''/in'', ''B.JPG'') \<notin> set (image_files sample_cfg sample_env)
      \<and> (\<forall>c. Save c \<in> set (run sample_cfg sample_env) \<longrightarrow> snd (save_path c) \<noteq> ''B.JPG'')"
    unfolding d by blast
  ultimately show ?thesis using h1 h2 h3 by blast
qed

lemma takeWhile_all: "takeWhile P xs = xs \<longleftrightarrow> list_all P xs"
  by (induction xs) auto

lemma number_rejected_raises:
  "number_rejected txt ok = Inl msg \<Longrightarrow>
     isdigit txt \<and> (\<not> list_all isdecimal_char txt
                    \<or> 4300 < length (takeWhile isdecimal_char txt))"
  by (auto simp: number_rejected_def int_of_text_def isdigit_def Let_def takeWhile_all
      list_all_iff split: if_splits sum.splits)

lemma number_accepted:
  "number_rejected txt ok = Inr False \<Longrightarrow> \<exists>n. int_of_text txt = Inr n \<and> ok n"
  by (auto simp: number_rejected_def split: if_splits sum.splits)

lemma start_conversion_raises:
  assumes "start_conversion isdir w = Inl msg"
  shows "(isdigit (strip (size_line w))
          \<and> (\<not> list_all isdecimal_char (strip (size_line w))
               \<or> 4300 < length (takeWhile isdecimal_char (strip (size_line w)))))
       \<or> (isdigit (strip (quality_line w))
          \<and> (\<not> list_all isdecimal_char (strip (quality_line w))
               \<or> 4300 < length (takeWhile isdecimal_char (strip (quality_line w)))))"
proof (cases "number_rejected (strip (size_line w)) (\<lambda>n. 0 < n)")
  case (Inl m)
  then show ?thesis using number_rejected_raises by blast
next
  case size: (Inr b)
  show ?thesis
  proof (cases "number_rejected (strip (quality_line w)) (\<lambda>n. 1 \<le> n \<and> n \<le> 95)")
    case (Inl m)
    then show ?thesis using number_rejected_raises by blast
  next
    case quality: (Inr b')
    show ?thesis
    proof (cases b)
      case True
      then show ?thesis
        using assms size by (auto simp: start_conversion_def Let_def split: if_splits)
    next
      case nb: False
      show ?thesis
      proof (cases b')
        case True
        then show ?thesis
          using assms size quality nb
          by (auto simp: start_conversion_def Let_def split: if_splits)
      next
        case False
        have "number_rejected (strip (size_line w)) (\<lambda>n. 0 < n) = Inr False"
          using size nb by simp
        then obtain n where n: "int_of_text (strip (size_line w)) = Inr n"
          using number_accepted by blast
        have "number_rejected (strip (quality_line w)) (\<lambda>n. 1 \<le> n \<and> n \<le> 95) = Inr False"
          using quality False by simp
        then obtain q where q: "int_of_text (strip (quality_line w)) = Inr q"
          using number_accepted by blast
        note n q
        then show ?thesis
          using assms size quality nb False
          by (auto simp: start_conversion_def Let_def split: if_splits)
      qed
    qed
  qed
qed


lemma start_conversion_returns:
  assumes "start_conversion isdir w = Inr w'"
  shows "w' = append_log w ''Error: Invalid source folder.''
       \<or> w' = append_log w ''Error: Invalid destination folder.''
       \<or> w' = append_log w
             ''Error: Please enter a valid number greater than 0 for the image size.''
       \<or> w' = append_log w ''Error: Image quality must be a number between 1 and 95.''
       \<or> (\<exists>cfg. w' = w\<lparr>start_btn_enabled := False, progress_bar := 0, log_text := [],
                        worker := Some cfg\<rparr>
              \<and> input_dir cfg \<noteq> [] \<and> isdir (input_dir cfg)
              \<and> (overwrite cfg \<or> isdir (output_dir cfg))
              \<and> 0 < target_size cfg \<and> 1 \<le> jpeg_quality cfg \<and> jpeg_quality cfg \<le> 95)"
proof (cases "number_rejected (strip (size_line w)) (\<lambda>n. 0 < n)")
  case (Inl m)
  then show ?thesis
    using assms by (auto simp: start_conversion_def Let_def split: if_splits)
next
  case size: (Inr b)
  show ?thesis
  proof (cases b)
    case True
    then show ?thesis
      using assms size by (auto simp: start_conversion_def Let_def split: if_splits)
  next
    case nb: False
    then have "number_rejected (strip (size_line w)) (\<lambda>n. 0 < n) = Inr False"
      using size by simp
    then obtain n where n: "int_of_text (strip (size_line w)) = Inr n" "0 < n"
      using number_accepted by blast
    show ?thesis
    proof (cases "number_rejected (strip (quality_line w)) (\<lambda>n. 1 \<le> n \<and> n \<le> 95)")
      case (Inl m)
      then show ?thesis
        using assms size nb by (auto simp: start_conversion_def Let_def split: if_splits)
    next
      case quality: (Inr b')
      show ?thesis
      proof (cases b')
        case True
        then show ?thesis
          using assms size quality nb
          by (auto simp: start_conversion_def Let_def split: if_splits)
      next
        case False
        then have "number_rejected (strip (quality_line w)) (\<lambda>n. 1 \<le> n \<and> n \<le> 95) = Inr False"
          using quality by simp
        then obtain q where q: "int_of_text (strip (quality_line w)) = Inr q" "1 \<le> q \<and> q \<le> 95"
          using number_accepted by blast
        show ?thesis
          using assms size quality nb False n q
          by (auto simp: start_conversion_def Let_def split: if_splits)
      qed
    qed
  qed
qed

section \<open>Validation of the form\<close>

text \<open>
  C8. Invalid input is to be rejected with one log line before any worker exists. By
  \<open>start_conversion_returns\<close> the handler does so whenever it returns, and by
  \<open>start_conversion_raises\<close> it fails to return only when a number field holds a
  character that \<^verbatim>\<open>isdigit\<close> accepts and \<^verbatim>\<open>int\<close> does not read, or more
  decimal digits than \<^verbatim>\<open>int\<close> converts. The first case exists:
  with the superscript two as the size, the handler is left by the \<^verbatim>\<open>ValueError\<close> of
  \<^verbatim>\<open>int\<close>; no log line is appended for this non-numeric size.
\<close>

theorem superscript_size_raises:
  "start_conversion sample_isdir (sample_window\<lparr>size_line := [CHR 0xB2]\<rparr>)
     = Inl (''invalid literal for int() with base 10: '' @ [CHR 0x27, CHR 0xB2, CHR 0x27])"
  by (simp add: start_conversion_def sample_window_def sample_isdir_def strip_def
      isspace_char_def number_rejected_def isdigit_def isdigit_char_def int_of_text_def
      isdecimal_char_def Let_def)

lemma p2_double: "p2 (q + 1) = 2 * p2 q"
  using p2_add[of q 1] p2_nat[of 1] by simp

lemma double_rounding:
  assumes "p2 (- 1021) \<le> x" and "1 \<le> c"
  shows "\<bar>fl (c * fl x) - c * x\<bar> \<le> 3 * (c * x) / 2 ^ 53"
proof -
  have half: "p2 (- 1021) = 2 * p2 (- 1022)" using p2_double[of "- 1022"] by simp
  have x: "0 < x" using assms(1) p2_pos[of "- 1021"] by linarith
  have xn: "p2 (- 1022) \<le> x" using assms(1) half p2_pos[of "- 1022"] by linarith
  have e1: "\<bar>fl x - x\<bar> \<le> x / 2 ^ 53" by (rule fl_error[OF xn])
  have small: "x / 2 ^ 53 \<le> x / 2" using x by (simp add: field_simps)
  have lo: "x / 2 \<le> fl x" using e1 small by linarith
  have hi: "fl x \<le> 2 * x" using e1 small x by linarith
  have r: "p2 (- 1022) \<le> fl x" using lo assms(1) half by linarith
  have r0: "0 \<le> fl x" using lo x by linarith
  have "1 * fl x \<le> c * fl x" using assms(2) r0 by (rule mult_right_mono)
  then have pn: "p2 (- 1022) \<le> c * fl x" using r by simp
  have e2: "\<bar>fl (c * fl x) - c * fl x\<bar> \<le> c * fl x / 2 ^ 53" by (rule fl_error[OF pn])
  have c0: "0 \<le> c" using assms(2) by simp
  have "c * fl x \<le> c * (2 * x)" using hi c0 by (rule mult_left_mono)
  then have "c * fl x / 2 ^ 53 \<le> c * (2 * x) / 2 ^ 53" by (simp add: divide_right_mono)
  with e2 have b2: "\<bar>fl (c * fl x) - c * fl x\<bar> \<le> 2 * (c * x) / 2 ^ 53" by simp
  have "c * \<bar>fl x - x\<bar> \<le> c * (x / 2 ^ 53)" using e1 c0 by (rule mult_left_mono)
  moreover have "c * \<bar>fl x - x\<bar> = \<bar>c * fl x - c * x\<bar>"
    using c0 by (simp add: abs_mult flip: right_diff_distrib)
  ultimately have b1: "\<bar>c * fl x - c * x\<bar> \<le> (c * x) / 2 ^ 53" by simp
  show ?thesis using b1 b2 by linarith
qed

lemma floor_within_one:
  assumes "\<bar>F - E\<bar> < (1::real)"
  shows "\<lfloor>E\<rfloor> - 1 \<le> \<lfloor>F\<rfloor> \<and> \<lfloor>F\<rfloor> \<le> \<lfloor>E\<rfloor> + 1"
proof -
  have "real_of_int \<lfloor>E\<rfloor> - 1 < F" using assms by linarith
  then have "real_of_int (\<lfloor>E\<rfloor> - 1) < F" by simp
  then have a: "\<lfloor>E\<rfloor> - 1 \<le> \<lfloor>F\<rfloor>" by (simp add: le_floor_iff)
  have "F < real_of_int \<lfloor>E\<rfloor> + 2" using assms by linarith
  then have "F < real_of_int (\<lfloor>E\<rfloor> + 2)" by simp
  then have "\<lfloor>F\<rfloor> < \<lfloor>E\<rfloor> + 2" by (simp only: floor_less_iff)
  then show ?thesis using a by simp
qed

lemma floor_near_int:
  assumes "\<bar>F - real_of_int t\<bar> < 1"
  shows "t - 1 \<le> \<lfloor>F\<rfloor> \<and> \<lfloor>F\<rfloor> \<le> t"
proof -
  have "real_of_int t - 1 < F" using assms by linarith
  then have "real_of_int (t - 1) < F" by simp
  then have a: "t - 1 \<le> \<lfloor>F\<rfloor>" by (simp add: le_floor_iff)
  have "F < real_of_int t + 1" using assms by linarith
  then have "F < real_of_int (t + 1)" by simp
  then have "\<lfloor>F\<rfloor> < t + 1" by (simp only: floor_less_iff)
  then show ?thesis using a by simp
qed

lemma floor_quotient_sharp:
  assumes "0 < d" and "\<bar>F - real_of_int a / real_of_int d\<bar> < 1 / real_of_int d"
  shows "a div d - 1 \<le> \<lfloor>F\<rfloor> \<and> \<lfloor>F\<rfloor> \<le> a div d"
proof -
  let ?m = "a div d"
  have d: "0 < real_of_int d" and d1: "1 \<le> real_of_int d" using assms(1) by simp_all
  have fl: "\<lfloor>real_of_int a / real_of_int d\<rfloor> = ?m" by (simp add: floor_divide_of_int_eq)
  have "a mod d < d" using assms(1) by simp
  moreover have "?m * d + a mod d = a" by simp
  ultimately have "a < ?m * d + d" by linarith
  then have "a < (?m + 1) * d" by (simp add: algebra_simps)
  then have "a + 1 \<le> (?m + 1) * d" by simp
  then have "real_of_int (a + 1) \<le> real_of_int ((?m + 1) * d)" by (simp only: of_int_le_iff)
  then have "real_of_int a + 1 \<le> (real_of_int ?m + 1) * real_of_int d" by simp
  then have "(real_of_int a + 1) / real_of_int d \<le> real_of_int ?m + 1"
    using d by (simp add: field_simps)
  then have up: "real_of_int a / real_of_int d + 1 / real_of_int d \<le> real_of_int ?m + 1"
    by (simp add: add_divide_distrib)
  have "F < real_of_int ?m + 1" using assms(2) up by linarith
  then have "F < real_of_int (?m + 1)" by simp
  then have "\<lfloor>F\<rfloor> < ?m + 1" by (simp only: floor_less_iff)
  moreover have "1 / real_of_int d \<le> 1" using d1 by simp
  then have "\<bar>F - real_of_int a / real_of_int d\<bar> < 1" using assms(2) by linarith
  then have "?m - 1 \<le> \<lfloor>F\<rfloor>" using floor_within_one[of F "real_of_int a / real_of_int d"] fl by simp
  ultimately show ?thesis by simp
qed

lemma side_error:
  assumes "0 < t" and "t < m" and "m < 2 ^ 51" and "0 < s" and "s \<le> m"
  shows "\<bar>fl (real_of_int s * fl (real_of_int t / real_of_int m))
           - real_of_int (s * t) / real_of_int m\<bar> < 1"
proof -
  let ?x = "real_of_int t / real_of_int m"
  have m: "0 < real_of_int m" using assms(1,2) by simp
  have t: "1 \<le> real_of_int t" using assms(1) by simp
  have "real_of_int m < 2 ^ 51"
    using assms(3) by (metis of_int_less_iff of_int_numeral of_int_power)
  then have m51: "real_of_int m < p2 51" using p2_nat[of 51] by simp
  have "p2 (- 51) = 1 / p2 51" using p2_neg[of 51] by simp
  also have "\<dots> \<le> 1 / real_of_int m" using m m51 by (simp add: frac_le)
  also have "\<dots> \<le> ?x" using t m by (simp add: divide_right_mono)
  finally have "p2 (- 51) \<le> ?x" .
  moreover have "p2 (- 1021) \<le> p2 (- 51)" by (rule p2_mono) simp
  ultimately have x: "p2 (- 1021) \<le> ?x" by linarith
  have s: "1 \<le> real_of_int s" using assms(4) by simp
  have e: "\<bar>fl (real_of_int s * fl ?x) - real_of_int s * ?x\<bar> \<le> 3 * (real_of_int s * ?x) / 2 ^ 53"
    by (rule double_rounding[OF x s])
  have "real_of_int s * ?x \<le> real_of_int m * ?x"
    using assms(1,2,5) by (intro mult_right_mono) simp_all
  also have "real_of_int m * ?x = real_of_int t" using m by simp
  also have "real_of_int t < 2 ^ 51"
    using assms(2,3) by (metis less_trans of_int_less_iff of_int_numeral of_int_power)
  finally have "real_of_int s * ?x < 2 ^ 51" .
  then have "3 * (real_of_int s * ?x) / 2 ^ 53 < 1" by simp
  moreover have "real_of_int s * ?x = real_of_int (s * t) / real_of_int m" by simp
  ultimately show ?thesis using e by simp
qed

lemma side_floor:
  assumes "0 < t" and "t < m" and "m < 2 ^ 51" and "0 < s" and "s \<le> m"
  shows "\<bar>\<lfloor>fl (real_of_int s * fl (real_of_int t / real_of_int m))\<rfloor> - (s * t) div m\<bar> \<le> 1"
proof -
  have "\<lfloor>real_of_int (s * t) / real_of_int m\<rfloor> = (s * t) div m"
    by (simp only: floor_divide_of_int_eq)
  then show ?thesis
    using floor_within_one[OF side_error[OF assms]] by linarith
qed

lemma longest_floor:
  assumes "0 < t" and "t < m" and "m < 2 ^ 51"
  shows "t - 1 \<le> \<lfloor>fl (real_of_int m * fl (real_of_int t / real_of_int m))\<rfloor>
       \<and> \<lfloor>fl (real_of_int m * fl (real_of_int t / real_of_int m))\<rfloor> \<le> t"
proof -
  have m: "0 < m" using assms(1,2) by simp
  have "real_of_int (m * t) / real_of_int m = real_of_int t" using m by simp
  then have "\<bar>fl (real_of_int m * fl (real_of_int t / real_of_int m)) - real_of_int t\<bar> < 1"
    using side_error[OF assms m order_refl] by simp
  then show ?thesis by (rule floor_near_int)
qed

lemma side_mono:
  assumes "0 \<le> s" and "s \<le> m" and "0 \<le> x"
  shows "\<lfloor>fl (real_of_int s * fl x)\<rfloor> \<le> \<lfloor>fl (real_of_int m * fl x)\<rfloor>"
proof -
  have r: "0 \<le> fl x" by (rule fl_nonneg[OF assms(3)])
  have a: "0 \<le> real_of_int s * fl x" using assms(1) r by simp
  have "real_of_int s * fl x \<le> real_of_int m * fl x"
    using assms(2) r by (intro mult_right_mono) simp_all
  then have "fl (real_of_int s * fl x) \<le> fl (real_of_int m * fl x)"
    by (rule fl_mono[OF a])
  then show ?thesis by (rule floor_mono)
qed

lemma new_size_bounds:
  assumes "0 < t" and "t < max w h" and "0 < w" and "0 < h" and "max w h < 2 ^ 51"
  shows "\<exists>w' h'. new_size t w h = Inr (w', h')
           \<and> t - 1 \<le> max w' h' \<and> max w' h' \<le> t
           \<and> \<bar>w' - (w * t) div max w h\<bar> \<le> 1
           \<and> \<bar>h' - (h * t) div max w h\<bar> \<le> 1"
proof -
  let ?m = "max w h"
  let ?r = "fl (real_of_int t / real_of_int ?m)"
  define w' where "w' = \<lfloor>fl (real_of_int w * ?r)\<rfloor>"
  define h' where "h' = \<lfloor>fl (real_of_int h * ?r)\<rfloor>"
  define l where "l = \<lfloor>fl (real_of_int ?m * ?r)\<rfloor>"
  have "(2::int) ^ 51 < 2 ^ 53" by simp
  then have m53: "?m < 2 ^ 53" using assms(5) by linarith
  have n: "new_size t w h = Inr (w', h')"
    unfolding w'_def h'_def
    by (rule new_size_value) (use assms m53 in simp_all)
  have x: "0 \<le> real_of_int t / real_of_int ?m" using assms(1,2) by simp
  have ws: "\<bar>w' - (w * t) div ?m\<bar> \<le> 1"
    unfolding w'_def by (rule side_floor[OF assms(1,2,5,3)]) simp
  have hs: "\<bar>h' - (h * t) div ?m\<bar> \<le> 1"
    unfolding h'_def by (rule side_floor[OF assms(1,2,5,4)]) simp
  have wl: "w' \<le> l" unfolding w'_def l_def
    by (rule side_mono[OF _ _ x]) (use assms in simp_all)
  have hl: "h' \<le> l" unfolding h'_def l_def
    by (rule side_mono[OF _ _ x]) (use assms in simp_all)
  have "w' = l \<or> h' = l" unfolding w'_def h'_def l_def by (cases "h \<le> w") (simp_all add: max_def)
  with wl hl have "max w' h' = l" by linarith
  moreover have "t - 1 \<le> l \<and> l \<le> t"
    unfolding l_def by (rule longest_floor[OF assms(1,2,5)])
  ultimately have "t - 1 \<le> max w' h' \<and> max w' h' \<le> t" by (simp only:)
  then show ?thesis using n ws hs by blast
qed

lemmas float_eval =
  py_truediv_def round_quotient_def floor_log2_def pow2_le_def round_half_even_def
  too_large_def int_of_scaled_def py_float_def float_mul_def py_int_def
  bit_length.simps Let_def

lemma sample_new_size: "new_size 1920 4000 3000 = Inr (1920, 1440)"
  by (simp add: new_size_def float_eval)


lemma resize_size: "resize env img sz = Inr r \<Longrightarrow> img_size r = sz"
  by (auto simp: resize_def split: option.splits)

section \<open>Images beyond the target size\<close>

text \<open>
  C2. When the longest side of a file's image exceeds the target size (sizes positive and
  below \<open>2 ^ 51\<close>, the target positive), the image handed to the encoder has the size
  \<^verbatim>\<open>(int(width * ratio), int(height * ratio))\<close> with
  \<^verbatim>\<open>ratio = target_size / max(width, height)\<close> that \<open>new_size\<close> computes in binary64
  arithmetic. Its longest side is the target size or one pixel less, and each side is
  within one pixel of the exactly scaled side \<open>side * target div longest\<close>.
\<close>

theorem large_image_is_scaled_to_target:
  assumes "image_open env p = Inr img" and "img_size img = (w, h)"
    and "0 < w" and "0 < h" and "0 < target_size cfg"
    and "target_size cfg < max w h" and "max w h < 2 ^ 51"
    and "Save c \<in> set (process_file cfg env p)"
  shows "\<exists>w' h'. img_size (save_image c) = (w', h')
           \<and> new_size (target_size cfg) w h = Inr (w', h')
           \<and> target_size cfg - 1 \<le> max w' h' \<and> max w' h' \<le> target_size cfg
           \<and> \<bar>w' - (w * target_size cfg) div max w h\<bar> \<le> 1
           \<and> \<bar>h' - (h * target_size cfg) div max w h\<bar> \<le> 1"
proof -
  obtain new_img where n: "scaled cfg env (clear_info img) = Inr new_img"
      "c = encoder_call cfg p (clear_info new_img)"
    using process_file_save[OF assms(8)] assms(1) by auto
  obtain w' h' where s: "new_size (target_size cfg) w h = Inr (w', h')"
      "target_size cfg - 1 \<le> max w' h'" "max w' h' \<le> target_size cfg"
      "\<bar>w' - (w * target_size cfg) div max w h\<bar> \<le> 1"
      "\<bar>h' - (h * target_size cfg) div max w h\<bar> \<le> 1"
    using new_size_bounds[OF assms(5,6,3,4,7)] by blast
  have "\<not> max w h \<le> target_size cfg" using assms(6) by linarith
  then have "scaled cfg env (clear_info img) = resize env (clear_info img) (w', h')"
    using assms(2) s(1) by (auto simp: scaled_def)
  with n(1) have "img_size new_img = (w', h')" by (simp add: resize_size)
  then have "img_size (save_image c) = (w', h')"
    using n(2) by (simp add: encoder_call_image)
  then show ?thesis using s by blast
qed

theorem large_image_is_scaled_to_target_witness:
  "image_open sample_env (''/in'', ''a.jpg'')
     = Inr (sample_image (4000, 3000) ''RGB'' (''/in'', ''a.jpg''))
   \<and> img_size (sample_image (4000, 3000) ''RGB'' (''/in'', ''a.jpg'')) = (4000, 3000)
   \<and> 0 < target_size sample_cfg \<and> target_size sample_cfg < max 4000 3000
   \<and> (\<exists>c. Save c \<in> set (process_file sample_cfg sample_env (''/in'', ''a.jpg''))
          \<and> img_size (save_image c) = (1920, 1440))
   \<and> new_size 1920 4000 3000 = Inr (1920, 1440)"
proof -
  let ?p = "(''/in'', ''a.jpg'')"
  let ?img = "sample_image (4000, 3000) ''RGB'' ?p"
  have h1: "image_open sample_env ?p = Inr ?img"
    by (simp add: sample_env_def sample_open_def)
  have h2: "img_size ?img = (4000, 3000)" by (simp add: sample_image_def)
  have h5: "0 < target_size sample_cfg" by (simp add: sample_cfg_def)
  have h6: "target_size sample_cfg < max 4000 3000" by (simp add: sample_cfg_def)
  have t: "target_size sample_cfg = 1920" by (simp add: sample_cfg_def)
  have sc: "scaled sample_cfg sample_env (clear_info ?img)
      = resize sample_env (clear_info ?img) (1920, 1440)"
    using h2 by (simp add: scaled_def t sample_new_size)
  obtain new_img where r: "resize sample_env (clear_info ?img) (1920, 1440) = Inr new_img"
    by (simp add: resize_def sample_env_def)
  let ?c = "encoder_call sample_cfg ?p (clear_info new_img)"
  have e: "save_error sample_env ?c = None" by (simp add: sample_env_def)
  have h8: "Save ?c \<in> set (process_file sample_cfg sample_env ?p)"
    using h1 sc r e by (simp add: process_file_def try_file_def Let_def)
  have "\<exists>w' h'. img_size (save_image ?c) = (w', h')
      \<and> new_size (target_size sample_cfg) 4000 3000 = Inr (w', h')"
    using large_image_is_scaled_to_target[OF h1 h2 _ _ h5 h6 _ h8] by auto
  then have "img_size (save_image ?c) = (1920, 1440)"
    by (auto simp: t sample_new_size)
  then show ?thesis using h1 h2 h5 h6 h8 sample_new_size by blast
qed

lemma fl_dyadic:
  assumes "0 < m" and "m < 2 ^ 53" and "- 1074 \<le> q"
  shows "fl (real_of_int m * p2 q) = real_of_int m * p2 q"
proof -
  define x where "x = real_of_int m * p2 q"
  define e where "e = exponent_of x"
  have x: "0 < x" using assms(1) by (simp add: x_def)
  have "real_of_int m < 2 ^ 53"
    using assms(2) by (metis of_int_less_iff of_int_numeral of_int_power)
  then have "real_of_int m * p2 q < 2 ^ 53 * p2 q"
    by (rule mult_strict_right_mono) simp
  then have "x < p2 (q + 53)" by (simp add: x_def p2_numeral_53 mult.commute)
  with floor_log_bracket(1)[OF x] have "p2 \<lfloor>log 2 x\<rfloor> < p2 (q + 53)" by linarith
  then have "\<lfloor>log 2 x\<rfloor> < q + 53" by (simp only: p2_less_iff)
  then have e: "e \<le> q" using assms(3) x by (simp add: e_def exponent_of_pos)
  define k where "k = nat (q - e)"
  have "p2 q = p2 (q - e) * p2 e" by (simp flip: p2_add)
  also have "p2 (q - e) = 2 ^ k" using e by (simp add: p2_nonneg_exp k_def)
  finally have pq: "p2 q = 2 ^ k * p2 e" .
  have "x / p2 e = real_of_int m * 2 ^ k" by (simp add: x_def pq)
  also have "\<dots> = real_of_int (m * 2 ^ k)" by simp
  finally have "rne (x / p2 e) = m * 2 ^ k" by (simp only: rne_of_int)
  then have "fl x = real_of_int (m * 2 ^ k) * p2 e"
    using x by (simp only: fl_pos_eq e_def)
  also have "\<dots> = real_of_int m * (2 ^ k * p2 e)" by simp
  also have "\<dots> = x" by (simp only: pq x_def)
  finally show ?thesis by (simp only: x_def)
qed

lemma below_one: "real_of_int (2 ^ 53 - 1) * p2 (- 53) = 1 - 1 / 2 ^ 53"
proof -
  have "p2 (- 53) = 1 / 2 ^ 53" using p2_neg[of 53] p2_nat[of 53] by simp
  then show ?thesis by (simp add: field_simps)
qed

lemma fl_proper_fraction:
  assumes "0 \<le> a" and "a < b" and "b \<le> 2 ^ 53"
  shows "fl (fl (real_of_int a / real_of_int b)) < 1"
proof -
  let ?y = "real_of_int (2 ^ 53 - 1) * p2 (- 53)"
  have fy: "fl ?y = ?y" by (rule fl_dyadic) simp_all
  have b: "0 < real_of_int b" using assms(1,2) by simp
  have "real_of_int b \<le> 2 ^ 53"
    using assms(3) by (metis of_int_le_iff of_int_numeral of_int_power)
  then have "1 / 2 ^ 53 \<le> 1 / real_of_int b" using b by (simp add: frac_le)
  moreover have "real_of_int a + 1 \<le> real_of_int b" using assms(2) by linarith
  then have "(real_of_int a + 1) / real_of_int b \<le> 1" using b by simp
  then have "real_of_int a / real_of_int b + 1 / real_of_int b \<le> 1"
    by (simp add: add_divide_distrib)
  ultimately have xy: "real_of_int a / real_of_int b \<le> ?y"
    unfolding below_one by linarith
  have x0: "0 \<le> real_of_int a / real_of_int b" using assms(1) b by simp
  have "fl (real_of_int a / real_of_int b) \<le> ?y"
    using fl_mono[OF x0 xy] fy by simp
  then have "fl (fl (real_of_int a / real_of_int b)) \<le> ?y"
    using fl_mono[OF fl_nonneg[OF x0]] fy by fastforce
  then show ?thesis unfolding below_one by simp
qed

lemma narrow_image_new_size:
  assumes "0 < t" and "t < h" and "h \<le> 2 ^ 53 - 1"
  shows "\<exists>h'. new_size t 1 h = Inr (0, h')"
proof -
  have m: "max 1 h = h" using assms(1,2) by simp
  have "new_size t 1 h =
      Inr (\<lfloor>fl (real_of_int 1 * fl (real_of_int t / real_of_int (max 1 h)))\<rfloor>,
           \<lfloor>fl (real_of_int h * fl (real_of_int t / real_of_int (max 1 h)))\<rfloor>)"
    by (rule new_size_value) (use assms in simp_all)
  moreover have "fl (fl (real_of_int t / real_of_int h)) < 1"
    by (rule fl_proper_fraction) (use assms in simp_all)
  moreover have "0 \<le> fl (fl (real_of_int t / real_of_int h))"
    using assms(1,2) by (intro fl_nonneg) simp_all
  ultimately have "new_size t 1 h =
      Inr (0, \<lfloor>fl (real_of_int h * fl (real_of_int t / real_of_int h))\<rfloor>)"
    by (simp add: m floor_eq_iff)
  then show ?thesis by blast
qed


section \<open>Images that scale to an empty size\<close>

text \<open>
  C9. A valid configuration and an image with positive sides, its longest side beyond
  the target size, can give a new size with a zero component: for an image one pixel
  wide and higher than the target (below \<open>2 ^ 53\<close>) the new width is
  \<^verbatim>\<open>int(1 * ratio) = 0\<close>, whatever the target. When the library refuses to resample
  to a size with a component below one, as Pillow does, nothing is saved for the file
  and its iteration ends in the error branch, with the library's message in the log.
\<close>

theorem narrow_image_ends_in_error_branch:
  assumes "image_open env p = Inr img" and "img_size img = (1, h)"
    and "0 < target_size cfg" and "target_size cfg < h" and "h \<le> 2 ^ 53 - 1"
    and "load_error env (clear_info img) = None"
    and "\<forall>sz. fst sz < 1 \<or> snd sz < 1 \<longrightarrow> resize_error env (clear_info img) sz = Some msg"
  shows "(\<exists>h'. new_size (target_size cfg) 1 h = Inr (0, h'))
         \<and> process_file cfg env p = [Log (''Error with '' @ snd p @ '': '' @ msg)]"
proof -
  obtain h' where n: "new_size (target_size cfg) 1 h = Inr (0, h')"
    using narrow_image_new_size[OF assms(3,4,5)] by blast
  have "resize_error env (clear_info img) (0, h') = Some msg" using assms(7) by simp
  then have r: "resize env (clear_info img) (0, h') = Inl msg"
    using assms(6) by (simp add: resize_def)
  have "\<not> max 1 h \<le> target_size cfg" using assms(3,4) by linarith
  then have "scaled cfg env (clear_info img) = Inl msg"
    using assms(2) n r by (auto simp: scaled_def)
  then have "process_file cfg env p = [Log (''Error with '' @ snd p @ '': '' @ msg)]"
    using assms(1) by (simp add: process_file_def try_file_def)
  then show ?thesis using n by blast
qed

theorem narrow_image_ends_in_error_branch_witness:
  "image_open sample_env (''/in'', ''e.png'')
     = Inr (sample_image (1, 4000) ''P'' (''/in'', ''e.png''))
   \<and> img_size (sample_image (1, 4000) ''P'' (''/in'', ''e.png'')) = (1, 4000)
   \<and> 0 < target_size sample_cfg \<and> target_size sample_cfg < 4000
   \<and> 1 \<le> jpeg_quality sample_cfg \<and> jpeg_quality sample_cfg \<le> 95
   \<and> new_size (target_size sample_cfg) 1 4000 = Inr (0, 1920)
   \<and> process_file sample_cfg sample_env (''/in'', ''e.png'')
       = [Log ''Error with e.png: height and width must be > 0'']"
proof -
  let ?p = "(''/in'', ''e.png'')"
  let ?img = "sample_image (1, 4000) ''P'' ?p"
  have h1: "image_open sample_env ?p = Inr ?img"
    by (simp add: sample_env_def sample_open_def)
  have h2: "img_size ?img = (1, 4000)" by (simp add: sample_image_def)
  have h3: "0 < target_size sample_cfg" by (simp add: sample_cfg_def)
  have h4: "target_size sample_cfg < 4000" by (simp add: sample_cfg_def)
  have h5: "(4000::int) \<le> 2 ^ 53 - 1" by simp
  have h6: "load_error sample_env (clear_info ?img) = None" by (simp add: sample_env_def)
  have h7: "\<forall>sz. fst sz < 1 \<or> snd sz < 1 \<longrightarrow>
      resize_error sample_env (clear_info ?img) sz = Some ''height and width must be > 0''"
    by (simp add: sample_env_def)
  have q: "1 \<le> jpeg_quality sample_cfg \<and> jpeg_quality sample_cfg \<le> 95"
    by (simp add: sample_cfg_def)
  have e: "new_size (target_size sample_cfg) 1 4000 = Inr (0, 1920)"
    by (simp add: sample_cfg_def new_size_def float_eval)
  show ?thesis
    using narrow_image_ends_in_error_branch[OF h1 h2 h3 h4 h5 h6 h7] h1 h2 h3 h4 q e
    by simp
qed

lemma progress_mono:
  assumes "i \<le> j" and "j < n"
  shows "\<exists>p q. progress_value i n = Inr p \<and> progress_value j n = Inr q \<and> p \<le> q"
proof -
  have i: "i < n" using assms by simp
  have x0: "0 \<le> real (Suc i) / real n" by simp
  have xy: "real (Suc i) / real n \<le> real (Suc j) / real n"
    using assms by (intro divide_right_mono) simp_all
  have r: "fl (real (Suc i) / real n) \<le> fl (real (Suc j) / real n)"
    by (rule fl_mono[OF x0 xy])
  have "0 \<le> 100 * fl (real (Suc i) / real n)" using fl_nonneg[OF x0] by simp
  moreover have "100 * fl (real (Suc i) / real n) \<le> 100 * fl (real (Suc j) / real n)"
    using r by simp
  ultimately have "fl (100 * fl (real (Suc i) / real n)) \<le> fl (100 * fl (real (Suc j) / real n))"
    by (rule fl_mono)
  then have "\<lfloor>fl (100 * fl (real (Suc i) / real n))\<rfloor> \<le> \<lfloor>fl (100 * fl (real (Suc j) / real n))\<rfloor>"
    by (rule floor_mono)
  then show ?thesis using progress_value_eq[OF i] progress_value_eq[OF assms(2)] by simp
qed

lemma progress_last:
  assumes "0 < n"
  shows "progress_value (n - 1) n = Inr 100"
proof -
  have i: "n - 1 < n" using assms by simp
  have s: "Suc (n - 1) = n" using assms by simp
  have one: "real n / real n = 1" using assms by simp
  have "fl (real_of_int 1) = real_of_int 1" by (rule fl_of_int) simp_all
  then have f1: "fl 1 = 1" by simp
  have "fl (real_of_int 100) = real_of_int 100" by (rule fl_of_int) simp_all
  then have f100: "fl 100 = 100" by simp
  have "fl (100 * fl (real (Suc (n - 1)) / real n)) = 100"
    unfolding s one f1 using f100 by simp
  then have "\<lfloor>fl (100 * fl (real (Suc (n - 1)) / real n))\<rfloor> = 100" by simp
  then show ?thesis using progress_value_eq[OF i] by (simp only:)
qed

lemma progress_bounds:
  assumes "i < n" and "n < 2 ^ 44" and "progress_value i n = Inr p"
  shows "(100 * (int i + 1)) div int n - 1 \<le> p \<and> p \<le> (100 * (int i + 1)) div int n"
proof -
  let ?x = "real (Suc i) / real n"
  have n: "0 < real n" using assms(1) by simp
  have "real n < real (2 ^ 44)" using assms(2) by (simp only: of_nat_less_iff)
  then have "real n < 2 ^ 44" by simp
  then have n44: "real n < p2 44" using p2_nat[of 44] by simp
  have inv: "1 / p2 44 < 1 / real n" using n n44 by (simp add: frac_less2)
  have "1 / real n \<le> ?x" using n by (intro divide_right_mono) simp_all
  moreover have "p2 (- 44) = 1 / p2 44" using p2_neg[of 44] by simp
  moreover have "p2 (- 1021) \<le> p2 (- 44)" by (rule p2_mono) simp
  ultimately have x: "p2 (- 1021) \<le> ?x" using inv by linarith
  have e: "\<bar>fl (100 * fl ?x) - 100 * ?x\<bar> \<le> 3 * (100 * ?x) / 2 ^ 53"
    by (rule double_rounding[OF x]) simp
  have "?x \<le> 1" using assms(1) n by simp
  then have "3 * (100 * ?x) \<le> 300" by linarith
  then have "3 * (100 * ?x) / 2 ^ 53 \<le> 300 / 2 ^ 53" by (rule divide_right_mono) simp
  moreover have "(300::real) / 2 ^ 53 < 1 / 2 ^ 44" by simp
  moreover have "1 / 2 ^ 44 = 1 / p2 44" using p2_nat[of 44] by simp
  ultimately have "\<bar>fl (100 * fl ?x) - 100 * ?x\<bar> < 1 / real n" using e inv by linarith
  then have lt: "\<bar>fl (100 * fl ?x) - 100 * ?x\<bar> < 1 / real n" .
  have E: "100 * ?x = real_of_int (100 * (int i + 1)) / real_of_int (int n)" by simp
  have d: "real_of_int (int n) = real n" by simp
  have "\<bar>fl (100 * fl ?x) - real_of_int (100 * (int i + 1)) / real_of_int (int n)\<bar>
      < 1 / real_of_int (int n)"
    using lt by (simp only: E d)
  moreover have "0 < int n" using assms(1) by simp
  ultimately have "(100 * (int i + 1)) div int n - 1 \<le> \<lfloor>fl (100 * fl ?x)\<rfloor>
      \<and> \<lfloor>fl (100 * fl ?x)\<rfloor> \<le> (100 * (int i + 1)) div int n"
    by (intro floor_quotient_sharp)
  then show ?thesis using progress_value_eq[OF assms(1)] assms(3) by simp
qed

lemma progress_values_append:
  "progress_values (xs @ ys) = progress_values xs @ progress_values ys"
  by (induction xs rule: progress_values.induct) simp_all

lemma progress_values_none:
  "(\<forall>p. Progress p \<notin> set xs) \<Longrightarrow> progress_values xs = []"
  by (induction xs rule: progress_values.induct) auto

lemma progress_values_file: "progress_values (process_file cfg env f) = []"
  using process_file_events[of _ cfg env f] by (intro progress_values_none) auto

lemma progress_values_loop:
  "length ps = length files \<Longrightarrow>
     progress_values (concat (map2 (\<lambda>f p. process_file cfg env f @ [Progress p]) files ps)) = ps"
proof (induction files arbitrary: ps)
  case Nil
  then show ?case by simp
next
  case (Cons f files)
  then obtain p ps' where ps: "ps = p # ps'" "length ps' = length files"
    by (cases ps) simp_all
  show ?case using Cons.IH[OF ps(2)]
    by (simp add: ps progress_values_append progress_values_file)
qed

lemma sample_files:
  "image_files sample_cfg sample_env =
     [(''/in'', ''a.jpg''), (''/in'', ''d.jpeg''), (''/in'', ''c.png''), (''/in'', ''e.png''),
      (''/in'', ''small.png'')]"
proof -
  have i: "\<not> ignore_case sample_env" by (simp add: sample_env_def)
  have l: "scandir sample_env ''/in'' =
      [''a.jpg'', ''B.JPG'', ''c.png'', ''d.jpeg'', ''e.png'', ''notes.txt'', ''small.png'']"
    by (simp add: sample_env_def)
  have d: "input_dir sample_cfg = ''/in''" by (simp add: sample_cfg_def)
  show ?thesis
    unfolding image_files_endings[OF i] d l by (simp add: endswith_def)
qed

lemma run_progress_values:
  assumes "image_files cfg env = files" and "files \<noteq> []" and "reaches_enumeration cfg env"
  shows "length (progress_values (run cfg env)) = length files
         \<and> (\<forall>j < length files.
               progress_value j (length files) = Inr (progress_values (run cfg env) ! j))"
proof -
  obtain ps where ps: "length ps = length files"
      "\<forall>j < length files. progress_value j (length files) = Inr (ps ! j)"
      "convert cfg env =
         concat (map2 (\<lambda>f p. process_file cfg env f @ [Progress p]) files ps)
           @ [Log ''Conversion completed.'', Finished]"
    using convert_completes[OF assms(1,2)] by blast
  have "progress_values (convert cfg env) = ps"
    unfolding ps(3) by (simp add: progress_values_append progress_values_loop[OF ps(1)])
  then have "progress_values (run cfg env) = ps"
    unfolding run_reaches[OF assms(3)] by (simp add: progress_values_append)
  then show ?thesis using ps(1,2) by simp
qed

section \<open>The progress signal\<close>

text \<open>
  C6, as the code has it. In a run that gets to a non-empty enumeration one progress
  value is emitted per file, the value \<^verbatim>\<open>int((i + 1) / total * 100)\<close> of binary64
  arithmetic. The values never decrease and the last one is 100. With fewer than
  \<open>2 ^ 44\<close> files, each value is the integer part of \<open>processed / total * 100\<close> or
  one less: the quotient and the product are rounded before \<^verbatim>\<open>int\<close> truncates, so
  the emitted value need not equal that percentage.
\<close>

theorem progress_is_truncated_percentage:
  assumes "image_files cfg env = files" and "files \<noteq> []" and "reaches_enumeration cfg env"
  shows "length (progress_values (run cfg env)) = length files
         \<and> sorted (progress_values (run cfg env))
         \<and> last (progress_values (run cfg env)) = 100
         \<and> (\<forall>i < length files.
               progress_value i (length files) = Inr (progress_values (run cfg env) ! i))
         \<and> (length files < 2 ^ 44 \<longrightarrow>
               (\<forall>i < length files.
                  (100 * (int i + 1)) div int (length files) - 1
                    \<le> progress_values (run cfg env) ! i
                  \<and> progress_values (run cfg env) ! i
                    \<le> (100 * (int i + 1)) div int (length files)))"
proof -
  define ps where "ps = progress_values (run cfg env)"
  define n where "n = length files"
  have len: "length ps = n" and val: "\<forall>j < n. progress_value j n = Inr (ps ! j)"
    using run_progress_values[OF assms(1,2,3)] by (simp_all add: ps_def n_def)
  have n: "0 < n" using assms(2) by (simp add: n_def)
  have "ps ! i \<le> ps ! j" if ij: "i \<le> j" and jl: "j < length ps" for i j
  proof -
    have j: "j < n" using jl len by simp
    have i: "i < n" using ij j by simp
    obtain p q where pq: "progress_value i n = Inr p" "progress_value j n = Inr q" "p \<le> q"
      using progress_mono[OF ij j] by blast
    have "ps ! i = p" using val i pq(1) by simp
    moreover have "ps ! j = q" using val j pq(2) by simp
    ultimately show ?thesis using pq(3) by simp
  qed
  then have srt: "sorted ps" by (simp add: sorted_iff_nth_mono)
  have "ps \<noteq> []" using len n by auto
  then have "last ps = ps ! (n - 1)" using len by (simp add: last_conv_nth)
  moreover have "progress_value (n - 1) n = Inr (ps ! (n - 1))" using val n by simp
  ultimately have lst: "last ps = 100" using progress_last[OF n] by simp
  have bnd: "(100 * (int i + 1)) div int n - 1 \<le> ps ! i
      \<and> ps ! i \<le> (100 * (int i + 1)) div int n" if small: "n < 2 ^ 44" and i: "i < n" for i
  proof -
    have v: "progress_value i n = Inr (ps ! i)" using val i by simp
    show ?thesis using progress_bounds[OF i small v] by simp
  qed
  show ?thesis
    using len srt lst val bnd unfolding ps_def n_def by blast
qed

theorem progress_is_truncated_percentage_witness:
  "image_files sample_cfg sample_env \<noteq> [] \<and> reaches_enumeration sample_cfg sample_env
   \<and> length (image_files sample_cfg sample_env) < 2 ^ 44
   \<and> length (progress_values (run sample_cfg sample_env)) = 5
   \<and> sorted (progress_values (run sample_cfg sample_env))
   \<and> last (progress_values (run sample_cfg sample_env)) = 100
   \<and> progress_value 0 5 = Inr (progress_values (run sample_cfg sample_env) ! 0)
   \<and> 19 \<le> progress_values (run sample_cfg sample_env) ! 0
   \<and> progress_values (run sample_cfg sample_env) ! 0 \<le> 20"
proof -
  have h1: "image_files sample_cfg sample_env \<noteq> []" by (simp add: sample_files)
  have h2: "reaches_enumeration sample_cfg sample_env"
    by (simp add: reaches_enumeration_def sample_env_def)
  have h3: "length (image_files sample_cfg sample_env) < 2 ^ 44" by (simp add: sample_files)
  have l: "length (image_files sample_cfg sample_env) = 5" by (simp add: sample_files)
  have z: "(0::nat) < 5" by simp
  note t = progress_is_truncated_percentage[OF refl h1 h2, unfolded l]
  have a: "length (progress_values (run sample_cfg sample_env)) = 5"
    and b: "sorted (progress_values (run sample_cfg sample_env))"
    and c: "last (progress_values (run sample_cfg sample_env)) = 100"
    using t by simp_all
  have d: "progress_value 0 5 = Inr (progress_values (run sample_cfg sample_env) ! 0)"
    using t z by blast
  have "(100 * (int 0 + 1)) div int 5 - 1 \<le> progress_values (run sample_cfg sample_env) ! 0
      \<and> progress_values (run sample_cfg sample_env) ! 0 \<le> (100 * (int 0 + 1)) div int 5"
    using t z h3[unfolded l] by blast
  then have e: "19 \<le> progress_values (run sample_cfg sample_env) ! 0
      \<and> progress_values (run sample_cfg sample_env) ! 0 \<le> 20"
    by simp
  show ?thesis using h1 h2 h3 a b c d e by simp
qed

text \<open>
  C6, as the claim has it, fails: after the 29th of 100 files the emitted value is 28,
  while 29 of 100 files are 29 per cent.
\<close>

theorem progress_is_not_the_percentage_counterexample:
  "progress_value 28 100 = Inr 28 \<and> (100 * (28 + 1)) div 100 \<noteq> (28::int)"
  by (simp add: progress_value_def float_eval)

lemma process_file_in_loop:
  assumes "length ps = length files" and "f \<in> set files"
  shows "set (process_file cfg env f)
           \<subseteq> set (concat (map2 (\<lambda>f p. process_file cfg env f @ [Progress p]) files ps))"
  using assms
proof (induction files arbitrary: ps)
  case Nil
  then show ?case by simp
next
  case (Cons g files)
  then obtain p ps' where ps: "ps = p # ps'" "length ps' = length files"
    by (cases ps) simp_all
  show ?case
  proof (cases "f = g")
    case True
    then show ?thesis by (auto simp: ps)
  next
    case False
    then have "f \<in> set files" using Cons.prems(2) by simp
    from Cons.IH[OF ps(2) this] show ?thesis by (auto simp: ps)
  qed
qed

section \<open>Failures on single files\<close>

text \<open>
  C4. In a run that gets to a non-empty enumeration every file is handled, in the order
  of the enumeration and whatever happened to the files before it: the events of the
  run are the events of each file, each followed by its progress signal, and then the
  completion message. An exception ends only the iteration of its file, with one log
  line made of the file name and the message of the exception: when the file cannot be
  opened, when its pixels cannot be decoded, when the library refuses to resample it and
  when the encoder fails (after the call of the encoder). A file on which nothing fails
  is saved and reported as processed.
\<close>

theorem file_errors_do_not_stop_the_run:
  assumes "image_files cfg env = files" and "files \<noteq> []" and "reaches_enumeration cfg env"
  shows "(\<exists>ps. length ps = length files
            \<and> (\<forall>j < length files. progress_value j (length files) = Inr (ps ! j))
            \<and> run cfg env =
                (if creates_directory cfg env then [Mkdir (output_dir cfg)] else [])
                  @ concat (map2 (\<lambda>f p. process_file cfg env f @ [Progress p]) files ps)
                  @ [Log ''Conversion completed.'', Finished])
         \<and> (\<forall>f \<in> set files. set (process_file cfg env f) \<subseteq> set (run cfg env))
         \<and> (\<forall>f msg. image_open env f = Inl msg \<longrightarrow>
               process_file cfg env f = [Log (''Error with '' @ snd f @ '': '' @ msg)])
         \<and> (\<forall>f img w h msg.
               image_open env f = Inr img \<and> img_size img = (w, h)
               \<and> (max w h \<le> target_size cfg \<or> (\<exists>sz. new_size (target_size cfg) w h = Inr sz))
               \<and> load_error env (clear_info img) = Some msg \<longrightarrow>
               process_file cfg env f = [Log (''Error with '' @ snd f @ '': '' @ msg)])
         \<and> (\<forall>f img w h sz msg.
               image_open env f = Inr img \<and> img_size img = (w, h)
               \<and> target_size cfg < max w h \<and> new_size (target_size cfg) w h = Inr sz
               \<and> load_error env (clear_info img) = None
               \<and> resize_error env (clear_info img) sz = Some msg \<longrightarrow>
               process_file cfg env f = [Log (''Error with '' @ snd f @ '': '' @ msg)])
         \<and> (\<forall>f img new_img msg.
               image_open env f = Inr img \<and> scaled cfg env (clear_info img) = Inr new_img
               \<and> save_error env (encoder_call cfg f (clear_info new_img)) = Some msg \<longrightarrow>
               process_file cfg env f =
                 [Save (encoder_call cfg f (clear_info new_img)),
                  Log (''Error with '' @ snd f @ '': '' @ msg)])
         \<and> (\<forall>f img new_img.
               image_open env f = Inr img \<and> scaled cfg env (clear_info img) = Inr new_img
               \<and> save_error env (encoder_call cfg f (clear_info new_img)) = None \<longrightarrow>
               process_file cfg env f =
                 [Save (encoder_call cfg f (clear_info new_img)),
                  Log (''Processed: '' @ snd f)])"
proof -
  obtain ps where ps: "length ps = length files"
      "\<forall>j < length files. progress_value j (length files) = Inr (ps ! j)"
      "convert cfg env =
         concat (map2 (\<lambda>f p. process_file cfg env f @ [Progress p]) files ps)
           @ [Log ''Conversion completed.'', Finished]"
    using convert_completes[OF assms(1,2)] by blast
  have r: "run cfg env =
      (if creates_directory cfg env then [Mkdir (output_dir cfg)] else [])
        @ concat (map2 (\<lambda>f p. process_file cfg env f @ [Progress p]) files ps)
        @ [Log ''Conversion completed.'', Finished]"
    using run_reaches[OF assms(3)] ps(3) by simp
  have c1: "\<exists>ps. length ps = length files
      \<and> (\<forall>j < length files. progress_value j (length files) = Inr (ps ! j))
      \<and> run cfg env =
          (if creates_directory cfg env then [Mkdir (output_dir cfg)] else [])
            @ concat (map2 (\<lambda>f p. process_file cfg env f @ [Progress p]) files ps)
            @ [Log ''Conversion completed.'', Finished]"
    using ps(1,2) r by blast
  have c2: "\<forall>f \<in> set files. set (process_file cfg env f) \<subseteq> set (run cfg env)"
  proof
    fix f assume "f \<in> set files"
    from process_file_in_loop[OF ps(1) this, of cfg env]
    have "set (process_file cfg env f)
        \<subseteq> set (concat (map2 (\<lambda>f p. process_file cfg env f @ [Progress p]) files ps))" .
    also have "\<dots> \<subseteq> set (run cfg env)" unfolding r by (simp only: set_append) blast
    finally show "set (process_file cfg env f) \<subseteq> set (run cfg env)" .
  qed
  have c3: "\<forall>f msg. image_open env f = Inl msg \<longrightarrow>
      process_file cfg env f = [Log (''Error with '' @ snd f @ '': '' @ msg)]"
    by (simp add: process_file_def try_file_def)
  have c4: "\<forall>f img w h msg.
      image_open env f = Inr img \<and> img_size img = (w, h)
      \<and> (max w h \<le> target_size cfg \<or> (\<exists>sz. new_size (target_size cfg) w h = Inr sz))
      \<and> load_error env (clear_info img) = Some msg \<longrightarrow>
      process_file cfg env f = [Log (''Error with '' @ snd f @ '': '' @ msg)]"
  proof (intro allI impI, elim conjE)
    fix f img w h msg
    assume o: "image_open env f = Inr img" and s: "img_size img = (w, h)"
      and n: "max w h \<le> target_size cfg \<or> (\<exists>sz. new_size (target_size cfg) w h = Inr sz)"
      and l: "load_error env (clear_info img) = Some msg"
    have "scaled cfg env (clear_info img) = Inl msg"
    proof (cases "max w h \<le> target_size cfg")
      case True
      then show ?thesis using s l by (auto simp: scaled_def copy_def)
    next
      case False
      then obtain sz where "new_size (target_size cfg) w h = Inr sz" using n by blast
      then show ?thesis using False s l by (auto simp: scaled_def resize_def)
    qed
    then show "process_file cfg env f = [Log (''Error with '' @ snd f @ '': '' @ msg)]"
      using o by (simp add: process_file_def try_file_def)
  qed
  have c5: "\<forall>f img w h sz msg.
      image_open env f = Inr img \<and> img_size img = (w, h)
      \<and> target_size cfg < max w h \<and> new_size (target_size cfg) w h = Inr sz
      \<and> load_error env (clear_info img) = None
      \<and> resize_error env (clear_info img) sz = Some msg \<longrightarrow>
      process_file cfg env f = [Log (''Error with '' @ snd f @ '': '' @ msg)]"
  proof (intro allI impI, elim conjE)
    fix f img w h sz msg
    assume o: "image_open env f = Inr img" and s: "img_size img = (w, h)"
      and t: "target_size cfg < max w h" and n: "new_size (target_size cfg) w h = Inr sz"
      and l: "load_error env (clear_info img) = None"
      and e: "resize_error env (clear_info img) sz = Some msg"
    have f: "\<not> max w h \<le> target_size cfg" using t by linarith
    have "scaled cfg env (clear_info img) = resize env (clear_info img) sz"
      using f s n by (auto simp: scaled_def)
    then have "scaled cfg env (clear_info img) = Inl msg"
      using l e by (simp add: resize_def)
    then show "process_file cfg env f = [Log (''Error with '' @ snd f @ '': '' @ msg)]"
      using o by (simp add: process_file_def try_file_def)
  qed
  have c6: "\<forall>f img new_img msg.
      image_open env f = Inr img \<and> scaled cfg env (clear_info img) = Inr new_img
      \<and> save_error env (encoder_call cfg f (clear_info new_img)) = Some msg \<longrightarrow>
      process_file cfg env f =
        [Save (encoder_call cfg f (clear_info new_img)),
         Log (''Error with '' @ snd f @ '': '' @ msg)]"
    by (simp add: process_file_def try_file_def Let_def)
  have c7: "\<forall>f img new_img.
      image_open env f = Inr img \<and> scaled cfg env (clear_info img) = Inr new_img
      \<and> save_error env (encoder_call cfg f (clear_info new_img)) = None \<longrightarrow>
      process_file cfg env f =
        [Save (encoder_call cfg f (clear_info new_img)), Log (''Processed: '' @ snd f)]"
    by (simp add: process_file_def try_file_def Let_def)
  show ?thesis
    by (intro conjI) (rule c1, rule c2, rule c3, rule c4, rule c5, rule c6, rule c7)
qed


lemma faulty_files:
  "image_files sample_cfg faulty_env =
     [(''/in'', ''c.png''), (''/in'', ''t.png''), (''/in'', ''e.png''), (''/in'', ''ro.png''),
      (''/in'', ''small.png'')]"
proof -
  have i: "\<not> ignore_case faulty_env" by (simp add: faulty_env_def sample_env_def)
  have l: "scandir faulty_env ''/in'' =
      [''c.png'', ''t.png'', ''e.png'', ''ro.png'', ''small.png'']"
    by (simp add: faulty_env_def)
  have d: "input_dir sample_cfg = ''/in''" by (simp add: sample_cfg_def)
  show ?thesis
    unfolding image_files_endings[OF i] d l by (simp add: endswith_def)
qed

lemma five_progress_values:
  "progress_value 0 5 = Inr 20" "progress_value (Suc 0) 5 = Inr 40"
  "progress_value (Suc (Suc 0)) 5 = Inr 60" "progress_value (Suc (Suc (Suc 0))) 5 = Inr 80"
  "progress_value (Suc (Suc (Suc (Suc 0)))) 5 = Inr 100"
  by (simp_all add: progress_value_def float_eval)

theorem file_errors_do_not_stop_the_run_witness:
  "image_files sample_cfg faulty_env \<noteq> [] \<and> reaches_enumeration sample_cfg faulty_env
   \<and> process_file sample_cfg faulty_env (''/in'', ''c.png'')
       = [Log (''Error with c.png: cannot identify image file ''
               @ [CHR 0x27] @ ''/in/c.png'' @ [CHR 0x27])]
   \<and> process_file sample_cfg faulty_env (''/in'', ''t.png'')
       = [Log ''Error with t.png: image file is truncated (12 bytes not processed)'']
   \<and> process_file sample_cfg faulty_env (''/in'', ''e.png'')
       = [Log ''Error with e.png: height and width must be > 0'']
   \<and> process_file sample_cfg faulty_env (''/in'', ''ro.png'')
       = [Save (sample_call ''ro.png'' (640, 480) ''RGB''),
          Log (''Error with ro.png: [Errno 13] Permission denied: ''
               @ [CHR 0x27] @ ''/out/ro.png'' @ [CHR 0x27])]
   \<and> process_file sample_cfg faulty_env (''/in'', ''small.png'')
       = [Save (sample_call ''small.png'' (640, 480) ''RGB''), Log ''Processed: small.png'']
   \<and> run sample_cfg faulty_env
       = [Mkdir ''/out'',
          Log (''Error with c.png: cannot identify image file ''
               @ [CHR 0x27] @ ''/in/c.png'' @ [CHR 0x27]),
          Progress 20,
          Log ''Error with t.png: image file is truncated (12 bytes not processed)'',
          Progress 40,
          Log ''Error with e.png: height and width must be > 0'',
          Progress 60,
          Save (sample_call ''ro.png'' (640, 480) ''RGB''),
          Log (''Error with ro.png: [Errno 13] Permission denied: ''
               @ [CHR 0x27] @ ''/out/ro.png'' @ [CHR 0x27]),
          Progress 80,
          Save (sample_call ''small.png'' (640, 480) ''RGB''),
          Log ''Processed: small.png'',
          Progress 100,
          Log ''Conversion completed.'',
          Finished]"
proof -
  have h1: "image_files sample_cfg faulty_env \<noteq> []" by (simp add: faulty_files)
  have h2: "reaches_enumeration sample_cfg faulty_env"
    by (simp add: reaches_enumeration_def faulty_env_def sample_env_def)
  note t = file_errors_do_not_stop_the_run[OF refl h1 h2]
  note t3 = t[THEN conjunct2, THEN conjunct2, THEN conjunct1, rule_format]
  note t4 = t[THEN conjunct2, THEN conjunct2, THEN conjunct2, THEN conjunct1, rule_format]
  note t5 = t[THEN conjunct2, THEN conjunct2, THEN conjunct2, THEN conjunct2, THEN conjunct1,
      rule_format]
  note t6 = t[THEN conjunct2, THEN conjunct2, THEN conjunct2, THEN conjunct2, THEN conjunct2,
      THEN conjunct1, rule_format]
  note t7 = t[THEN conjunct2, THEN conjunct2, THEN conjunct2, THEN conjunct2, THEN conjunct2,
      THEN conjunct2, rule_format]
  have opn: "image_open faulty_env = sample_open"
    by (simp add: faulty_env_def sample_env_def)
  have opens: "image_open faulty_env (''/in'', ''t.png'')
        = Inr (sample_image (640, 480) ''RGB'' (''/in'', ''t.png''))"
      "image_open faulty_env (''/in'', ''e.png'')
        = Inr (sample_image (1, 4000) ''P'' (''/in'', ''e.png''))"
      "image_open faulty_env (''/in'', ''ro.png'')
        = Inr (sample_image (640, 480) ''RGB'' (''/in'', ''ro.png''))"
      "image_open faulty_env (''/in'', ''small.png'')
        = Inr (sample_image (640, 480) ''RGB'' (''/in'', ''small.png''))"
    unfolding opn by (simp_all add: sample_open_def)
  have tgt: "target_size sample_cfg = 1920" by (simp add: sample_cfg_def)
  \<comment> \<open>the file that cannot be opened\<close>
  have "image_open faulty_env (''/in'', ''c.png'')
      = Inl (''cannot identify image file '' @ [CHR 0x27] @ ''/in/c.png'' @ [CHR 0x27])"
    by (simp add: opn sample_open_def)
  from this have pc: "process_file sample_cfg faulty_env (''/in'', ''c.png'')
      = [Log (''Error with '' @ snd (''/in'', ''c.png'') @ '': ''
              @ (''cannot identify image file '' @ [CHR 0x27] @ ''/in/c.png'' @ [CHR 0x27]))]"
    using t3 by simp
  \<comment> \<open>the file that cannot be decoded\<close>
  let ?timg = "sample_image (640, 480) ''RGB'' (''/in'', ''t.png'')"
  have "img_size ?timg = (640, 480)"
    and "max 640 480 \<le> target_size sample_cfg
         \<or> (\<exists>sz. new_size (target_size sample_cfg) 640 480 = Inr sz)"
    and "load_error faulty_env (clear_info ?timg)
         = Some ''image file is truncated (12 bytes not processed)''"
    by (simp_all add: opens sample_image_def tgt faulty_env_def clear_info_def)
  from this have pt: "process_file sample_cfg faulty_env (''/in'', ''t.png'')
      = [Log (''Error with '' @ snd (''/in'', ''t.png'') @ '': ''
              @ ''image file is truncated (12 bytes not processed)'')]"
    using t4[where w = 640 and h = 480] opens by simp
  \<comment> \<open>the image that cannot be resampled\<close>
  let ?eimg = "sample_image (1, 4000) ''P'' (''/in'', ''e.png'')"
  have "img_size ?eimg = (1, 4000)"
    and "target_size sample_cfg < max 1 4000"
    and "new_size (target_size sample_cfg) 1 4000 = Inr (0, 1920)"
    and "load_error faulty_env (clear_info ?eimg) = None"
    and "resize_error faulty_env (clear_info ?eimg) (0, 1920)
         = Some ''height and width must be > 0''"
    by (simp_all add: opens sample_image_def tgt faulty_env_def sample_env_def
        clear_info_def new_size_def float_eval)
  from this have pe: "process_file sample_cfg faulty_env (''/in'', ''e.png'')
      = [Log (''Error with '' @ snd (''/in'', ''e.png'') @ '': ''
              @ ''height and width must be > 0'')]"
    using t5[where w = 1 and h = 4000 and sz = "(0, 1920)"] opens by simp
  \<comment> \<open>the file that cannot be written, and the sound one\<close>
  have sc: "scaled sample_cfg faulty_env (clear_info (sample_image (640, 480) ''RGB'' (''/in'', n)))
      = Inr (clear_info (sample_image (640, 480) ''RGB'' (''/in'', n)))"
    if "n \<noteq> ''t.png''" for n
    using that by (simp add: scaled_def copy_def tgt sample_image_def clear_info_def faulty_env_def)
  let ?rimg = "sample_image (640, 480) ''RGB'' (''/in'', ''ro.png'')"
  have "scaled sample_cfg faulty_env (clear_info ?rimg) = Inr (clear_info ?rimg)"
    by (simp add: sc)
  moreover have "save_error faulty_env (encoder_call sample_cfg (''/in'', ''ro.png'')
           (clear_info (clear_info ?rimg)))
         = Some (''[Errno 13] Permission denied: '' @ [CHR 0x27] @ ''/out/ro.png'' @ [CHR 0x27])"
    by (simp add: faulty_env_def encoder_call_def Let_def sample_cfg_def)
  ultimately have pr: "process_file sample_cfg faulty_env (''/in'', ''ro.png'')
      = [Save (encoder_call sample_cfg (''/in'', ''ro.png'') (clear_info (clear_info ?rimg))),
         Log (''Error with '' @ snd (''/in'', ''ro.png'') @ '': ''
              @ (''[Errno 13] Permission denied: '' @ [CHR 0x27] @ ''/out/ro.png''
                 @ [CHR 0x27]))]"
    using t6[where f = "(''/in'', ''ro.png'')" and img = ?rimg and new_img = "clear_info ?rimg"]
      opens by simp
  let ?simg = "sample_image (640, 480) ''RGB'' (''/in'', ''small.png'')"
  have "scaled sample_cfg faulty_env (clear_info ?simg) = Inr (clear_info ?simg)"
    by (simp add: sc)
  moreover have "save_error faulty_env (encoder_call sample_cfg (''/in'', ''small.png'')
           (clear_info (clear_info ?simg))) = None"
    by (simp add: faulty_env_def encoder_call_def Let_def sample_cfg_def)
  ultimately have ps: "process_file sample_cfg faulty_env (''/in'', ''small.png'')
      = [Save (encoder_call sample_cfg (''/in'', ''small.png'') (clear_info (clear_info ?simg))),
         Log (''Processed: '' @ snd (''/in'', ''small.png''))]"
    using t7[where f = "(''/in'', ''small.png'')" and img = ?simg
        and new_img = "clear_info ?simg"] opens by simp
  note files = pc pt pe pr ps
  have r: "run sample_cfg faulty_env
      = Mkdir ''/out'' # convert sample_cfg faulty_env"
    by (simp add: run_def sample_cfg_def faulty_env_def sample_env_def)
  have c: "convert sample_cfg faulty_env
      = process_file sample_cfg faulty_env (''/in'', ''c.png'') @ Progress 20
        # process_file sample_cfg faulty_env (''/in'', ''t.png'') @ Progress 40
        # process_file sample_cfg faulty_env (''/in'', ''e.png'') @ Progress 60
        # process_file sample_cfg faulty_env (''/in'', ''ro.png'') @ Progress 80
        # process_file sample_cfg faulty_env (''/in'', ''small.png'') @ Progress 100
        # [Log ''Conversion completed.'', Finished]"
  proof -
    have five: "Suc (Suc (Suc (Suc (Suc 0)))) = 5" by simp
    show ?thesis
      by (simp add: convert_def faulty_files five five_progress_values Let_def)
  qed
  show ?thesis
    using h1 h2 unfolding r c files by (simp add: sample_call_def)
qed

end
